theory Spec2Isabelle
  imports Complex_Main "HOL-Library.Multiset"
begin

section \<open>Python string helpers\<close>

text \<open>
  A Python \<open>str\<close> is modelled as a \<open>string\<close> whose characters are the code points
  below 256. \<open>lower\<close> is \<open>str.lower()\<close> on that range: each ASCII capital and each
  Latin-1 capital (192 to 222 without the multiplication sign 215) becomes the letter
  32 places further up.
\<close>

definition upper_letters :: string where
  "upper_letters =
     ''ABCDEFGHIJKLMNOPQRSTUVWXYZ'' @
     [CHR 0xC0, CHR 0xC1, CHR 0xC2, CHR 0xC3, CHR 0xC4, CHR 0xC5, CHR 0xC6, CHR 0xC7,
      CHR 0xC8, CHR 0xC9, CHR 0xCA, CHR 0xCB, CHR 0xCC, CHR 0xCD, CHR 0xCE, CHR 0xCF,
      CHR 0xD0, CHR 0xD1, CHR 0xD2, CHR 0xD3, CHR 0xD4, CHR 0xD5, CHR 0xD6, CHR 0xD8,
      CHR 0xD9, CHR 0xDA, CHR 0xDB, CHR 0xDC, CHR 0xDD, CHR 0xDE]"

definition lower_letters :: string where
  "lower_letters =
     ''abcdefghijklmnopqrstuvwxyz'' @
     [CHR 0xE0, CHR 0xE1, CHR 0xE2, CHR 0xE3, CHR 0xE4, CHR 0xE5, CHR 0xE6, CHR 0xE7,
      CHR 0xE8, CHR 0xE9, CHR 0xEA, CHR 0xEB, CHR 0xEC, CHR 0xED, CHR 0xEE, CHR 0xEF,
      CHR 0xF0, CHR 0xF1, CHR 0xF2, CHR 0xF3, CHR 0xF4, CHR 0xF5, CHR 0xF6, CHR 0xF8,
      CHR 0xF9, CHR 0xFA, CHR 0xFB, CHR 0xFC, CHR 0xFD, CHR 0xFE]"

definition lower_char :: "char \<Rightarrow> char" where
  "lower_char c = (case map_of (zip upper_letters lower_letters) c of Some l \<Rightarrow> l | None \<Rightarrow> c)"

definition lower :: "string \<Rightarrow> string" where
  "lower s = map lower_char s"

text \<open>\<open>int(x)\<close> on a float: truncation towards zero.\<close>

definition py_int :: "real \<Rightarrow> int" where
  "py_int x = (if 0 \<le> x then \<lfloor>x\<rfloor> else \<lceil>x\<rceil>)"

section \<open>downloader.py: needs_telegram_optimization\<close>

text \<open>
  The function reads two things from the outside world: the size of the file
  (\<open>os.path.getsize\<close>, which may raise) and the JSON that \<open>ffprobe\<close> prints for the
  first video stream (the subprocess may fail, time out or print something that is not
  JSON). Both are inputs of the model. A stream is the dictionary of the JSON; a missing
  key is \<open>None\<close> and the code's \<open>stream.get(key, default)\<close> supplies the default.
\<close>

record video_stream =
  codec_name :: "string option"
  width :: "int option"
  height :: "int option"
  display_aspect_ratio :: "string option"

datatype probe_result =
    ProbeError
  | ProbeJson "video_stream list option"

record media_file =
  file_size :: "nat option"
  probe :: probe_result

datatype opt_reason =
    FileSizeOver nat
  | CodecNeedsConversion string
  | VerticalWithoutAspect int int
  | CouldNotVerifyCodec
  | ErrorChecking

definition needs_telegram_optimization :: "media_file \<Rightarrow> bool \<times> opt_reason option" where
  "needs_telegram_optimization f =
     (case file_size f of
        None \<Rightarrow> (True, Some ErrorChecking)
      | Some sz \<Rightarrow>
          let size_mb = real sz / (1024 * 1024)
          in if size_mb > 48 then (True, Some (FileSizeOver sz))
             else
               (case probe f of
                  ProbeError \<Rightarrow> (True, Some CouldNotVerifyCodec)
                | ProbeJson data \<Rightarrow>
                    (case data of
                       Some (stream # rest) \<Rightarrow>
                         let codec = lower (case codec_name stream of Some c \<Rightarrow> c | None \<Rightarrow> []);
                             w = (case width stream of Some v \<Rightarrow> v | None \<Rightarrow> 0);
                             h = (case height stream of Some v \<Rightarrow> v | None \<Rightarrow> 0);
                             dar = (case display_aspect_ratio stream of Some v \<Rightarrow> v | None \<Rightarrow> [])
                         in if codec \<notin> set [''h264'', ''libx264'']
                            then (True, Some (CodecNeedsConversion codec))
                            else if h > w \<and> (dar = [] \<or> dar = ''N/A'')
                            then (True, Some (VerticalWithoutAspect w h))
                            else (False, None)
                     | _ \<Rightarrow> (False, None))))"

text \<open>The vocabulary of the claim, read off the probed file and not off the function.\<close>

definition first_video_stream :: "media_file \<Rightarrow> video_stream option" where
  "first_video_stream f =
     (case probe f of
        ProbeJson (Some (stream # rest)) \<Rightarrow> Some stream
      | _ \<Rightarrow> None)"

definition is_h264 :: "video_stream \<Rightarrow> bool" where
  "is_h264 s =
     (case codec_name s of
        None \<Rightarrow> False
      | Some c \<Rightarrow> lower c = ''h264'' \<or> lower c = ''libx264'')"

definition is_portrait :: "video_stream \<Rightarrow> bool" where
  "is_portrait s =
     ((case height s of Some v \<Rightarrow> v | None \<Rightarrow> 0) > (case width s of Some v \<Rightarrow> v | None \<Rightarrow> 0))"

definition aspect_ratio_present :: "video_stream \<Rightarrow> bool" where
  "aspect_ratio_present s =
     (case display_aspect_ratio s of
        None \<Rightarrow> False
      | Some d \<Rightarrow> d \<noteq> [] \<and> d \<noteq> ''N/A'')"

definition mb48 :: nat where
  "mb48 = 48 * 1024 * 1024"

section \<open>downloader.py: compress_video\<close>

text \<open>
  The duration comes from \<open>ffprobe\<close> (\<open>None\<close> when the probe or the conversion to a
  number fails). The arithmetic of the source is on binary floating point numbers; the
  model computes with exact reals, so the rounding of the floating point operations is
  not part of it. The result is what the function puts on the \<open>ffmpeg\<close> command line:
  \<open>-b:v\<close>, \<open>-maxrate\<close>, \<open>-bufsize\<close> and \<open>-b:a\<close>, each in units of \<open>k\<close>.
\<close>

record compress_cmd =
  b_v :: int
  maxrate :: int
  bufsize :: int
  b_a :: int

definition compress_video_cmd :: "real option \<Rightarrow> real \<Rightarrow> compress_cmd option" where
  "compress_video_cmd probed target_size_mb =
     (case probed of
        None \<Rightarrow> None
      | Some duration \<Rightarrow>
          if duration \<le> 0 then None
          else
            let target_bits = target_size_mb * 8 * 1024 * 1024;
                audio_bitrate_kbps = 128;
                audio_bits = audio_bitrate_kbps * 1024 * duration;
                video_bits = target_bits - audio_bits;
                kbps0 = (if video_bits \<le> 0 then 100 else (video_bits / duration) / 1024);
                kbps1 = kbps0 * 0.9;
                video_bitrate_kbps = (if kbps1 < 50 then 50 else kbps1)
            in Some \<lparr> b_v = py_int video_bitrate_kbps,
                      maxrate = py_int (video_bitrate_kbps * 1.5),
                      bufsize = py_int (video_bitrate_kbps * 2),
                      b_a = 128 \<rparr>)"

text \<open>
  The bitrate as the specification words it: the bits left after the audio, per second,
  times 0.9, never less than 50 kbit/s (a kbit being 1024 bits, as in the audio term).
\<close>

definition spec_video_bitrate_kbps :: "real \<Rightarrow> real \<Rightarrow> real" where
  "spec_video_bitrate_kbps d target_size_mb =
     max 50 (((target_size_mb * 8 * 1024 * 1024 - 128 * 1024 * d) / d) * 0.9 / 1024)"

section \<open>downloader.py: generate_thumbnail\<close>

text \<open>
  The file system is a map from paths to file sizes, and \<open>subprocess.run\<close> is a
  parameter: given the command line and the file system it returns how the process ended
  and the file system it left. \<open>base_name\<close> is
  \<open>os.path.splitext(os.path.basename(video_path))[0]\<close>, \<open>time_offset\<close> is
  \<open>str(time_offset)\<close>, and \<open>posix\<close> is \<open>os.name != 'nt'\<close>.
\<close>

datatype run_result = Completed | TimeoutExpired | CalledProcessError

type_synonym filesystem = "string \<Rightarrow> nat option"

definition path_join :: "string \<Rightarrow> string \<Rightarrow> string" where
  "path_join dir name = dir @ ''/'' @ name"

definition nice_prefix :: "bool \<Rightarrow> string list" where
  "nice_prefix posix = (if posix then [''nice'', ''-n'', ''15''] else [])"

definition thumbnail_cmd :: "bool \<Rightarrow> string \<Rightarrow> string \<Rightarrow> string \<Rightarrow> string list" where
  "thumbnail_cmd posix time_offset video_path thumbnail_path =
     nice_prefix posix @
     [''ffmpeg'', ''-y'', ''-ss'', time_offset, ''-i'', video_path,
      ''-vf'', ''scale=320:320:force_original_aspect_ratio=decrease'',
      ''-frames:v'', ''1'', ''-q:v'', ''2'', thumbnail_path]"

definition thumbnail_cmd_compress :: "bool \<Rightarrow> string \<Rightarrow> string \<Rightarrow> string list" where
  "thumbnail_cmd_compress posix thumbnail_path temp_path =
     nice_prefix posix @
     [''ffmpeg'', ''-y'', ''-i'', thumbnail_path,
      ''-vf'', ''scale=320:320:force_original_aspect_ratio=decrease'',
      ''-q:v'', ''5'', temp_path]"

definition thumbnail_return :: "string \<Rightarrow> filesystem \<Rightarrow> string option \<times> filesystem" where
  "thumbnail_return thumbnail_path fs =
     (case fs thumbnail_path of
        None \<Rightarrow> (None, fs)
      | Some final_size \<Rightarrow> (Some thumbnail_path, fs))"

definition generate_thumbnail ::
  "(string list \<Rightarrow> filesystem \<Rightarrow> run_result \<times> filesystem) \<Rightarrow> bool \<Rightarrow>
   string \<Rightarrow> string \<Rightarrow> string \<Rightarrow> string \<Rightarrow> filesystem \<Rightarrow> string option \<times> filesystem" where
  "generate_thumbnail run posix video_path base_name output_dir time_offset fs =
     (let thumbnail_path = path_join output_dir (base_name @ ''_thumb.jpg'');
          (r1, fs1) = run (thumbnail_cmd posix time_offset video_path thumbnail_path) fs
      in if r1 \<noteq> Completed then (None, fs1)
         else
           (case fs1 thumbnail_path of
              None \<Rightarrow> (None, fs1)
            | Some thumb_size \<Rightarrow>
                if thumb_size > 200 * 1024 then
                  (let temp_path = path_join output_dir (base_name @ ''_thumb_temp.jpg'');
                       (r2, fs2) = run (thumbnail_cmd_compress posix thumbnail_path temp_path) fs1
                   in if r2 \<noteq> Completed then (None, fs2)
                      else
                        (case fs2 temp_path of
                           Some temp_size \<Rightarrow>
                             if temp_size < 200 * 1024
                             then thumbnail_return thumbnail_path
                                    (fs2(thumbnail_path := Some temp_size, temp_path := None))
                             else thumbnail_return thumbnail_path (fs2(temp_path := None))
                         | None \<Rightarrow> thumbnail_return thumbnail_path fs2))
                else thumbnail_return thumbnail_path fs1))"

text \<open>
  An \<open>ffmpeg\<close> whose first frame is a 300 KB JPEG and whose re-encoding at quality 5
  is still 250 KB. Both command lines end with the output path.
\<close>

definition ffmpeg_oversize :: "string list \<Rightarrow> filesystem \<Rightarrow> run_result \<times> filesystem" where
  "ffmpeg_oversize cmd fs =
     (Completed, fs(last cmd := Some (if ''5'' \<in> set cmd then 250 * 1024 else 300 * 1024)))"

text \<open>
  The bitrate the code computes for the default target of 49 MB: below 3136 seconds
  (where the bits left for the video are positive) the formula with its floor of 50,
  from 3136 seconds on the fixed 100 kbit/s of the branch for a video budget that is
  used up, times 0.9.
\<close>

definition code_video_bitrate_kbps :: "real \<Rightarrow> real" where
  "code_video_bitrate_kbps d =
     (if d < 3136 then max 50 (((49 * 8 * 1024 * 1024 - 128 * 1024 * d) / d) / 1024 * 0.9) else 90)"

section \<open>bot.py: the voice batch aggregator\<close>

text \<open>
  Recognised speech is arbitrary Unicode text, so the transcripts are lists of code
  points (\<open>ustr\<close>). \<open>is_space\<close> lists the code points for which \<open>str.isspace()\<close> holds,
  \<open>ustrip\<close> is \<open>str.strip()\<close>, and \<open>dec\<close> is \<open>str(n)\<close> for a natural number.
\<close>

type_synonym ustr = "nat list"

definition is_space :: "nat \<Rightarrow> bool" where
  "is_space c \<longleftrightarrow>
     (9 \<le> c \<and> c \<le> 13) \<or> (28 \<le> c \<and> c \<le> 32) \<or> c = 133 \<or> c = 160 \<or> c = 5760 \<or>
     (8192 \<le> c \<and> c \<le> 8202) \<or> c = 8232 \<or> c = 8233 \<or> c = 8239 \<or> c = 8287 \<or> c = 12288"

definition ustrip :: "ustr \<Rightarrow> ustr" where
  "ustrip s = rev (dropWhile is_space (rev (dropWhile is_space s)))"

fun dec :: "nat \<Rightarrow> ustr" where
  "dec n = (if n < 10 then [48 + n] else dec (n div 10) @ [48 + n mod 10])"

record message =
  message_id :: int
  content_type :: string
  file_unique_id :: string

record timer =
  deadline :: real
  active :: bool

record batch_state =
  user_message_batches :: "nat \<Rightarrow> message list option"
  batch_timers :: "nat \<Rightarrow> timer option"
  user_last_message_time :: "nat \<Rightarrow> real option"







text \<open>
  The outside world of \<open>process_voice_batch\<close>: downloading the audio of a message and
  converting it to WAV may raise (\<open>None\<close>); \<open>transcribe\<close> is what the future of
  \<open>transcribe_audio_segments\<close> yields (\<open>None\<close> when it raises); \<open>completion\<close> is the
  order in which the worker threads finish, by index of the submitted task.
\<close>

record ('a, 'b) voice_env =
  download :: "message \<Rightarrow> 'a option"
  convert :: "'a \<Rightarrow> 'b option"
  transcribe :: "'b \<Rightarrow> ustr option"
  completion :: "nat list"

datatype voice_result =
    NoVoiceMessages
  | BatchError
  | Blocked
  | NothingRecognised
  | Transcript ustr

definition max_workers :: "nat \<Rightarrow> nat" where
  "max_workers n = min n 16"

text \<open>\<open>[f(x) for x in xs]\<close> where \<open>f\<close> may raise: the first exception ends the loop.\<close>

fun map_raise :: "('x \<Rightarrow> 'y option) \<Rightarrow> 'x list \<Rightarrow> 'y list option" where
  "map_raise f [] = Some []"
| "map_raise f (x # xs) =
     (case f x of
        None \<Rightarrow> None
      | Some y \<Rightarrow> (case map_raise f xs of None \<Rightarrow> None | Some ys \<Rightarrow> Some (y # ys)))"

text \<open>
  The thread pool: every finished task stores the outcome in its future. The collecting
  loop goes through the futures in the order of submission and writes each result at the
  index of its future; a future that never completes blocks the loop.
\<close>

definition run_pool :: "('b \<Rightarrow> ustr option) \<Rightarrow> 'b list \<Rightarrow> nat list \<Rightarrow> (nat \<Rightarrow> ustr option option)" where
  "run_pool tr audio_files order =
     fold (\<lambda>i futures. if i < length audio_files then futures(i := Some (tr (audio_files ! i))) else futures)
          order (\<lambda>i. None)"

fun collect_results :: "(nat \<Rightarrow> ustr option option) \<Rightarrow> nat list \<Rightarrow> ustr list \<Rightarrow> ustr list option" where
  "collect_results futures [] transcribed_texts = Some transcribed_texts"
| "collect_results futures (index # rest) transcribed_texts =
     (case futures index of
        None \<Rightarrow> None
      | Some (Some text) \<Rightarrow> collect_results futures rest (transcribed_texts[index := text])
      | Some None \<Rightarrow> collect_results futures rest (transcribed_texts[index := []]))"

definition label_voice :: ustr where
  "label_voice = [1043, 1086, 1083, 1086, 1089, 1086, 1074, 1086, 1077]"

definition label_video_note :: ustr where
  "label_video_note = [1042, 1080, 1076, 1077, 1086, 1089, 1086, 1086, 1073, 1097, 1077, 1085, 1080, 1077]"

definition section_text :: "nat \<Rightarrow> ustr \<Rightarrow> message \<Rightarrow> ustr" where
  "section_text i text msg =
     (let message_type = (if content_type msg = ''voice'' then label_voice else label_video_note)
      in [10, 10, 45, 45, 45, 32] @ message_type @ [32] @ dec (i + 1) @ [32, 45, 45, 45, 10] @ text)"

fun combine :: "nat \<Rightarrow> (ustr \<times> message) list \<Rightarrow> ustr" where
  "combine i [] = []"
| "combine i ((text, msg) # rest) =
     (if text \<noteq> [] \<and> ustrip text \<noteq> []
      then section_text i text msg @ combine (i + 1) rest
      else combine (i + 1) rest)"

definition process_voice_batch :: "('a, 'b) voice_env \<Rightarrow> message list \<Rightarrow> voice_result" where
  "process_voice_batch env voice_messages =
     (if voice_messages = [] then NoVoiceMessages
      else
        (case map_raise (download env)
                (filter (\<lambda>m. content_type m = ''voice'' \<or> content_type m = ''video_note'') voice_messages) of
           None \<Rightarrow> BatchError
         | Some downloaded_files \<Rightarrow>
             (case map_raise (convert env) downloaded_files of
                None \<Rightarrow> BatchError
              | Some audio_files \<Rightarrow>
                  if max_workers (length audio_files) = 0 then BatchError
                  else
                    (case collect_results (run_pool (transcribe env) audio_files (completion env))
                            [0 ..< length audio_files] (replicate (length audio_files) []) of
                       None \<Rightarrow> Blocked
                     | Some transcribed_texts \<Rightarrow>
                         let combined_text = ustrip (combine 0 (zip transcribed_texts voice_messages))
                         in if combined_text = [] then NothingRecognised
                            else Transcript combined_text))))"

text \<open>
  \<open>process_batch\<close>: under the lock the buffer of the user is taken and emptied and the
  timer entry is removed; then the voice and video-note messages are sorted by message
  id and handed to \<open>process_voice_batch\<close>. The result is the new state and, when the
  buffer was not empty, the batch that was flushed with the outcome of its voice part.
\<close>

definition process_batch ::
  "('a, 'b) voice_env \<Rightarrow> batch_state \<Rightarrow> nat \<Rightarrow> real \<Rightarrow>
   batch_state \<times> (message list \<times> voice_result option) option" where
  "process_batch env st user_id now =
     (case user_message_batches st user_id of
        None \<Rightarrow> (st, None)
      | Some messages \<Rightarrow>
          if messages = [] then (st, None)
          else
            let st1 = st\<lparr>user_message_batches := (user_message_batches st)(user_id := Some []),
                        batch_timers := (batch_timers st)(user_id := None)\<rparr>;
                st2 = st1\<lparr>user_last_message_time := (user_last_message_time st1)(user_id := Some now)\<rparr>;
                voice_messages = filter (\<lambda>m. content_type m \<in> set [''voice'', ''video_note'']) messages
            in if voice_messages \<noteq> []
               then (st2, Some (messages, Some (process_voice_batch env (sort_key message_id voice_messages))))
               else (st2, Some (messages, None)))"




text \<open>
  The transcript as the specification words it, for the messages \<open>ms\<close> in ascending
  order of their ids: section \<open>i\<close> is the transcription of the \<open>i\<close>-th message, the
  sections with an empty transcription are left out, and the numbering counts them.
\<close>

definition message_text :: "('a, 'b) voice_env \<Rightarrow> message \<Rightarrow> ustr" where
  "message_text env m =
     (case download env m of
        None \<Rightarrow> []
      | Some a \<Rightarrow> (case convert env a of
                     None \<Rightarrow> []
                   | Some b \<Rightarrow> (case transcribe env b of None \<Rightarrow> [] | Some text \<Rightarrow> text)))"

definition spec_transcript :: "('a, 'b) voice_env \<Rightarrow> message list \<Rightarrow> ustr" where
  "spec_transcript env ms =
     ustrip (concat (map (\<lambda>i. section_text i (message_text env (ms ! i)) (ms ! i))
                        (filter (\<lambda>i. ustrip (message_text env (ms ! i)) \<noteq> []) [0 ..< length ms])))"

definition fetchable :: "('a, 'b) voice_env \<Rightarrow> message \<Rightarrow> bool" where
  "fetchable env m = (case download env m of None \<Rightarrow> False | Some a \<Rightarrow> convert env a \<noteq> None)"



definition is_voice :: "message \<Rightarrow> bool" where
  "is_voice m \<longleftrightarrow> content_type m = ''voice'' \<or> content_type m = ''video_note''"




text \<open>
  A concrete batch: three voice messages with the ids 1001, 1002 and 1003; the speech
  service recognises "a" in the first, nothing in the second and "c" in the third, and
  the worker of the second message finishes first.
\<close>

definition voice_msg :: "int \<Rightarrow> message" where
  "voice_msg i = \<lparr>message_id = i, content_type = ''voice'', file_unique_id = ''uid''\<rparr>"

definition env_demo :: "(int, int) voice_env" where
  "env_demo =
     \<lparr>download = (\<lambda>m. Some (message_id m)), convert = (\<lambda>a. Some a),
      transcribe = (\<lambda>b. Some (if b = 1002 then [] else [nat (b - 904)])),
      completion = [1, 0, 2]\<rparr>"

definition st_demo :: batch_state where
  "st_demo =
     \<lparr>user_message_batches = (\<lambda>u. if u = 5 then Some [voice_msg 1003, voice_msg 1001, voice_msg 1002] else None),
      batch_timers = (\<lambda>u. None), user_last_message_time = (\<lambda>u. None)\<rparr>"


definition text_of :: "ustr option \<Rightarrow> ustr" where
  "text_of r = (case r of None \<Rightarrow> [] | Some text \<Rightarrow> text)"

section \<open>database.py: the file cache\<close>

text \<open>
  The table \<open>file_cache\<close> is the list of its rows in the order of insertion, together
  with the counter that SQLite keeps for an \<open>AUTOINCREMENT\<close> key (the largest id ever
  given out). \<open>SELECT ... WHERE url = ?\<close> followed by \<open>fetchone()\<close> is the first row
  with that url. The statements themselves do not fail in the model: a database error
  (which the code turns into \<open>None\<close>) is outside of it.
\<close>

record cache_row =
  row_id :: nat
  row_url :: string
  row_file_id :: string
  row_media_type :: string
  row_uploader_id :: int
  row_created_at :: real

record database =
  file_cache :: "cache_row list"
  sqlite_sequence :: nat

definition select_by_url :: "database \<Rightarrow> string \<Rightarrow> cache_row option" where
  "select_by_url db url = find (\<lambda>r. row_url r = url) (file_cache db)"

text \<open>
  \<open>json.dumps\<close> of a list of strings with the default \<open>ensure_ascii\<close>: the quotation
  mark, the backslash and the control characters with a short form are escaped with a
  backslash, every other character outside of the printable ASCII range becomes
  \<open>\u00XX\<close>, and the items are separated by a comma and a space.
\<close>

definition hex_digit :: "nat \<Rightarrow> char" where
  "hex_digit n = (if n < 10 then char_of (48 + n) else char_of (87 + n))"

definition json_escape_char :: "char \<Rightarrow> string" where
  "json_escape_char c =
     (let n = (of_char c :: nat)
      in if n = 34 then [CHR 0x5C, CHR 0x22]
         else if n = 92 then [CHR 0x5C, CHR 0x5C]
         else if n = 10 then [CHR 0x5C, CHR ''n'']
         else if n = 13 then [CHR 0x5C, CHR ''r'']
         else if n = 9 then [CHR 0x5C, CHR ''t'']
         else if n = 12 then [CHR 0x5C, CHR ''f'']
         else if n = 8 then [CHR 0x5C, CHR ''b'']
         else if n < 32 \<or> 126 < n
         then [CHR 0x5C, CHR ''u'', CHR ''0'', CHR ''0'', hex_digit (n div 16), hex_digit (n mod 16)]
         else [c])"

definition json_dumps_str :: "string \<Rightarrow> string" where
  "json_dumps_str s = [CHR 0x22] @ concat (map json_escape_char s) @ [CHR 0x22]"

fun join_comma :: "string list \<Rightarrow> string" where
  "join_comma [] = []"
| "join_comma [x] = x"
| "join_comma (x # y # rest) = x @ '', '' @ join_comma (y # rest)"

definition json_dumps :: "string list \<Rightarrow> string" where
  "json_dumps file_ids = ''['' @ join_comma (map json_dumps_str file_ids) @ '']''"

text \<open>
  What \<open>json.loads\<close> returns is a JSON value; the decoder itself is a parameter of
  \<open>get_cached_file\<close> (\<open>None\<close> when it raises).
\<close>

datatype json =
    JNull
  | JBool bool
  | JNumber string
  | JString string
  | JArray "json list"
  | JObject "(string \<times> json) list"

text \<open>The argument \<open>file_ids\<close> of \<open>save_file_to_cache\<close>: one file id or a list of them.\<close>

datatype file_ids_arg = SingleId string | IdList "string list"

definition save_file_to_cache ::
  "database \<Rightarrow> string \<Rightarrow> file_ids_arg \<Rightarrow> string \<Rightarrow> int \<Rightarrow> real \<Rightarrow> database \<times> nat option" where
  "save_file_to_cache db url file_ids media_type user_id now =
     (let (file_id_str, media_type1) =
            (case file_ids of
               IdList ids \<Rightarrow> (json_dumps ids, if length ids > 1 then ''carousel'' else media_type)
             | SingleId s \<Rightarrow> (s, media_type))
      in case select_by_url db url of
           Some existing \<Rightarrow>
             let cache_id = row_id existing
             in (db\<lparr>file_cache :=
                      map (\<lambda>r. if row_id r = cache_id
                                then r\<lparr>row_file_id := file_id_str, row_media_type := media_type1,
                                       row_uploader_id := user_id, row_created_at := now\<rparr>
                                else r)
                          (file_cache db)\<rparr>,
                 Some cache_id)
         | None \<Rightarrow>
             let cache_id = Suc (fold max (map row_id (file_cache db)) (sqlite_sequence db))
             in (db\<lparr>file_cache := file_cache db @
                        [\<lparr>row_id = cache_id, row_url = url, row_file_id = file_id_str,
                          row_media_type = media_type1, row_uploader_id = user_id,
                          row_created_at = now\<rparr>],
                      sqlite_sequence := cache_id\<rparr>,
                 Some cache_id))"

definition get_cached_file ::
  "(string \<Rightarrow> json option) \<Rightarrow> database \<Rightarrow> string \<Rightarrow> (json list \<times> string) option" where
  "get_cached_file loads db url =
     (case select_by_url db url of
        None \<Rightarrow> None
      | Some result \<Rightarrow>
          (case loads (row_file_id result) of
             Some (JArray file_ids) \<Rightarrow> Some (file_ids, row_media_type result)
           | Some file_ids \<Rightarrow> Some ([file_ids], row_media_type result)
           | None \<Rightarrow> Some ([JString (row_file_id result)], row_media_type result)))"

text \<open>The kind that the specification expects to read back.\<close>

definition coerce :: "string \<Rightarrow> nat \<Rightarrow> string" where
  "coerce kind n = (if n > 1 then ''carousel'' else kind)"

text \<open>
  A decoder for the witnesses: it knows the two texts that the witnesses store and
  rejects everything else.
\<close>

definition loads_demo :: "string \<Rightarrow> json option" where
  "loads_demo s =
     (if s = ''[]'' then Some (JArray [])
      else if s = json_dumps [''p1'', ''p2''] then Some (JArray [JString ''p1'', JString ''p2''])
      else None)"

definition db_demo :: database where
  "db_demo =
     \<lparr>file_cache =
        [\<lparr>row_id = 4, row_url = ''https://youtu.be/x'', row_file_id = ''old'', row_media_type = ''video'',
          row_uploader_id = 1, row_created_at = 0\<rparr>],
      sqlite_sequence = 7\<rparr>"

section \<open>bot.py: the registry of downloads in flight\<close>

text \<open>
  \<open>active_downloads\<close> maps a normalized url to an \<open>asyncio.Future\<close>. Futures are
  handles into a store that holds the state of each one. Two coroutines write the
  registry, \<open>download_and_cache_inline\<close> and \<open>process_single_url\<close>; each is modelled by
  the pieces that run without an \<open>await\<close> in between: the check with the installation
  of a fresh future, and what the coroutine does with its future on the way out.
\<close>

type_synonym download_result = "string list option \<times> string option"

datatype future_state = Pending | Fulfilled download_result | Cancelled

record registry_state =
  active_downloads :: "string \<Rightarrow> nat option"
  futures :: "nat \<Rightarrow> future_state option"
  next_future :: nat

datatype role = Follower nat | Leader nat

definition future_done :: "registry_state \<Rightarrow> nat \<Rightarrow> bool" where
  "future_done st f = (case futures st f of Some Pending \<Rightarrow> False | Some other \<Rightarrow> True | None \<Rightarrow> False)"

definition new_future :: "registry_state \<Rightarrow> string \<Rightarrow> registry_state \<times> nat" where
  "new_future st normalized_url =
     (let f = next_future st
      in (st\<lparr>futures := (futures st)(f := Some Pending),
             active_downloads := (active_downloads st)(normalized_url := Some f),
             next_future := Suc f\<rparr>, f))"

definition set_result_if_not_done :: "registry_state \<Rightarrow> nat \<Rightarrow> download_result \<Rightarrow> registry_state" where
  "set_result_if_not_done st f r =
     (if future_done st f then st else st\<lparr>futures := (futures st)(f := Some (Fulfilled r))\<rparr>)"

definition cancel_if_not_done :: "registry_state \<Rightarrow> nat \<Rightarrow> registry_state" where
  "cancel_if_not_done st f =
     (if future_done st f then st else st\<lparr>futures := (futures st)(f := Some Cancelled)\<rparr>)"

text \<open>
  \<open>download_and_cache_inline\<close>: a request that finds an entry joins its future; otherwise
  it installs a fresh one and downloads. Every way out of the download sets the result
  (or cancels the future) and then runs the \<open>finally\<close> block, which removes the entry of
  the url when the own future is done.
\<close>

definition inline_enter :: "registry_state \<Rightarrow> string \<Rightarrow> registry_state \<times> role" where
  "inline_enter st normalized_url =
     (case active_downloads st normalized_url of
        Some f \<Rightarrow> (st, Follower f)
      | None \<Rightarrow> (let (st1, f) = new_future st normalized_url in (st1, Leader f)))"

definition inline_finally :: "registry_state \<Rightarrow> string \<Rightarrow> nat \<Rightarrow> registry_state" where
  "inline_finally st normalized_url f =
     (if active_downloads st normalized_url \<noteq> None
      then (if future_done st f
            then st\<lparr>active_downloads := (active_downloads st)(normalized_url := None)\<rparr>
            else st)
      else st)"

definition inline_return :: "registry_state \<Rightarrow> string \<Rightarrow> nat \<Rightarrow> download_result \<Rightarrow> registry_state" where
  "inline_return st normalized_url f r = inline_finally (set_result_if_not_done st f r) normalized_url f"

definition inline_cancelled :: "registry_state \<Rightarrow> string \<Rightarrow> nat \<Rightarrow> registry_state" where
  "inline_cancelled st normalized_url f = inline_finally (cancel_if_not_done st f) normalized_url f"

text \<open>
  \<open>process_single_url\<close>: a request that finds an entry waits for its future; when the
  wait ends without file ids (a timeout, an exception, an empty result) it goes on like a
  request that found none. With no usable file on disk it installs a fresh future, whatever
  the registry holds for the url. On the way out it sets the result; its \<open>finally\<close>
  block leaves the registry as it is.
\<close>

definition message_enter :: "registry_state \<Rightarrow> string \<Rightarrow> registry_state \<times> role" where
  "message_enter st normalized_url =
     (case active_downloads st normalized_url of
        Some f \<Rightarrow> (st, Follower f)
      | None \<Rightarrow> (let (st1, f) = new_future st normalized_url in (st1, Leader f)))"

definition message_wait_failed :: "registry_state \<Rightarrow> string \<Rightarrow> registry_state \<times> role" where
  "message_wait_failed st normalized_url =
     (let (st1, f) = new_future st normalized_url in (st1, Leader f))"

definition message_return :: "registry_state \<Rightarrow> string \<Rightarrow> nat \<Rightarrow> download_result \<Rightarrow> registry_state" where
  "message_return st normalized_url f r = set_result_if_not_done st f r"

definition empty_registry :: registry_state where
  "empty_registry = \<lparr>active_downloads = (\<lambda>u. None), futures = (\<lambda>f. None), next_future = 0\<rparr>"

section \<open>bot.py: normalize_url\<close>

text \<open>
  \<open>normalize_url\<close> works through \<open>urllib.parse\<close>. The library functions it calls are
  modelled after their source in CPython 3.11 (\<open>Lib/urllib/parse.py\<close>), for strings of
  code points below 256. On such strings \<open>_checknetloc\<close> never raises (no character below
  256 normalizes under NFKC to one of \<open>/?#@:\<close>), so it does not appear. The one part
  that stays a parameter is \<open>ip_ok\<close>: whether \<open>ipaddress.ip_address\<close> accepts a text in
  square brackets as an IPv6 address.
\<close>

subsection \<open>Strings\<close>

definition is_pyspace :: "char \<Rightarrow> bool" where
  "is_pyspace c \<longleftrightarrow>
     c \<in> set [CHR 0x09, CHR 0x0A, CHR 0x0B, CHR 0x0C, CHR 0x0D, CHR 0x1C, CHR 0x1D, CHR 0x1E,
               CHR 0x1F, CHR 0x20, CHR 0x85, CHR 0xA0]"

definition lstrip :: "string \<Rightarrow> string" where
  "lstrip s = dropWhile is_pyspace s"

definition rstrip :: "string \<Rightarrow> string" where
  "rstrip s = rev (dropWhile is_pyspace (rev s))"

definition strip :: "string \<Rightarrow> string" where
  "strip s = rstrip (lstrip s)"

definition rstrip_char :: "char \<Rightarrow> string \<Rightarrow> string" where
  "rstrip_char c s = rev (dropWhile (\<lambda>x. x = c) (rev s))"

text \<open>\<open>needle in haystack\<close>.\<close>

fun contains :: "string \<Rightarrow> string \<Rightarrow> bool" where
  "contains needle [] = (needle = [])"
| "contains needle (x # xs) = (take (length needle) (x # xs) = needle \<or> contains needle xs)"

text \<open>\<open>s.split(c, 1)\<close> when \<open>c\<close> occurs in \<open>s\<close>, and \<open>s.split(c)\<close>.\<close>

definition split_first :: "char \<Rightarrow> string \<Rightarrow> (string \<times> string) option" where
  "split_first c s =
     (if c \<in> set s then Some (takeWhile (\<lambda>x. x \<noteq> c) s, tl (dropWhile (\<lambda>x. x \<noteq> c) s)) else None)"

fun split_on :: "char \<Rightarrow> string \<Rightarrow> string list" where
  "split_on c [] = [[]]"
| "split_on c (x # xs) =
     (case split_on c xs of
        [] \<Rightarrow> [[x]]
      | w # ws \<Rightarrow> if x = c then [] # w # ws else (x # w) # ws)"

fun join_with :: "string \<Rightarrow> string list \<Rightarrow> string" where
  "join_with sep [] = []"
| "join_with sep [x] = x"
| "join_with sep (x # y # rest) = x @ sep @ join_with sep (y # rest)"

definition is_ascii :: "char \<Rightarrow> bool" where
  "is_ascii c \<longleftrightarrow> (of_char c :: nat) < 128"

definition is_ascii_alpha :: "char \<Rightarrow> bool" where
  "is_ascii_alpha c \<longleftrightarrow> c \<in> set ''abcdefghijklmnopqrstuvwxyzABCDEFGHIJKLMNOPQRSTUVWXYZ''"

definition is_hex :: "char \<Rightarrow> bool" where
  "is_hex c \<longleftrightarrow> c \<in> set ''0123456789ABCDEFabcdef''"

subsection \<open>urlsplit, urlparse, urlunparse\<close>

definition scheme_chars :: string where
  "scheme_chars = ''abcdefghijklmnopqrstuvwxyzABCDEFGHIJKLMNOPQRSTUVWXYZ0123456789+-.''"

definition uses_netloc :: "string list" where
  "uses_netloc =
     ['''', ''ftp'', ''http'', ''gopher'', ''nntp'', ''telnet'', ''imap'', ''wais'', ''file'', ''mms'',
      ''https'', ''shttp'', ''snews'', ''prospero'', ''rtsp'', ''rtsps'', ''rtspu'', ''rsync'', ''svn'',
      ''svn+ssh'', ''sftp'', ''nfs'', ''git'', ''git+ssh'', ''ws'', ''wss'', ''itms-services'']"

definition uses_params :: "string list" where
  "uses_params =
     ['''', ''ftp'', ''hdl'', ''prospero'', ''http'', ''imap'', ''https'', ''shttp'', ''rtsp'', ''rtsps'',
      ''rtspu'', ''sip'', ''sips'', ''mms'', ''sftp'', ''tel'']"

text \<open>
  The scheme: the text before the first colon, when it is not empty, starts with an ASCII
  letter and consists of scheme characters; it is lower-cased.
\<close>

definition split_scheme :: "string \<Rightarrow> string \<times> string" where
  "split_scheme url =
     (let pre = takeWhile (\<lambda>c. c \<noteq> CHR '':'') url
      in if CHR '':'' \<in> set url \<and> pre \<noteq> [] \<and> is_ascii_alpha (hd url) \<and>
            list_all (\<lambda>c. c \<in> set scheme_chars) pre
         then (lower pre, drop (Suc (length pre)) url)
         else ([], url))"

definition splitnetloc :: "string \<Rightarrow> string \<times> string" where
  "splitnetloc rest =
     (takeWhile (\<lambda>c. c \<notin> set ''/?#'') rest, dropWhile (\<lambda>c. c \<notin> set ''/?#'') rest)"

text \<open>
  The checks on square brackets in the netloc, each of which raises \<open>ValueError\<close>: an
  unmatched bracket, and a bracketed host that is neither an IPvFuture address (the
  regular expression \<open>v[a-fA-F0-9]+\..+\<close>) nor an IPv6 address.
\<close>

definition ipvfuture_ok :: "string \<Rightarrow> bool" where
  "ipvfuture_ok hostname =
     (let rest = tl hostname;
          digits = takeWhile is_hex rest;
          after = dropWhile is_hex rest
      in digits \<noteq> [] \<and> length after \<ge> 2 \<and> hd after = CHR ''.'')"

definition check_bracketed_host :: "(string \<Rightarrow> bool) \<Rightarrow> string \<Rightarrow> bool" where
  "check_bracketed_host ip_ok hostname =
     (if take 1 hostname = ''v'' then ipvfuture_ok hostname else ip_ok hostname)"

definition netloc_ok :: "(string \<Rightarrow> bool) \<Rightarrow> string \<Rightarrow> bool" where
  "netloc_ok ip_ok netloc =
     (let opening = (CHR ''['' \<in> set netloc); closing = (CHR '']'' \<in> set netloc)
      in if opening \<noteq> closing then False
         else if opening \<and> closing
         then check_bracketed_host ip_ok
                (takeWhile (\<lambda>c. c \<noteq> CHR '']'') (tl (dropWhile (\<lambda>c. c \<noteq> CHR ''['') netloc)))
         else True)"

definition urlsplit ::
  "(string \<Rightarrow> bool) \<Rightarrow> string \<Rightarrow> (string \<times> string \<times> string \<times> string \<times> string) option" where
  "urlsplit ip_ok url0 =
     (let url1 = dropWhile (\<lambda>c. (of_char c :: nat) \<le> 32) url0;
          url2 = filter (\<lambda>c. c \<notin> set [CHR 0x09, CHR 0x0D, CHR 0x0A]) url1;
          (scheme, url3) = split_scheme url2;
          (netloc, url4) = (if take 2 url3 = ''//'' then splitnetloc (drop 2 url3) else ([], url3));
          (url5, fragment) = (case split_first CHR ''#'' url4 of Some (a, b) \<Rightarrow> (a, b) | None \<Rightarrow> (url4, []));
          (url6, query) = (case split_first CHR ''?'' url5 of Some (a, b) \<Rightarrow> (a, b) | None \<Rightarrow> (url5, []))
      in if take 2 url3 = ''//'' \<and> \<not> netloc_ok ip_ok netloc then None
         else Some (scheme, netloc, url6, query, fragment))"

definition splitparams :: "string \<Rightarrow> string \<times> string" where
  "splitparams url =
     (if CHR ''/'' \<in> set url
      then (let head = rev (dropWhile (\<lambda>c. c \<noteq> CHR ''/'') (rev url));
                seg = rev (takeWhile (\<lambda>c. c \<noteq> CHR ''/'') (rev url))
            in if CHR '';'' \<in> set seg
               then (head @ takeWhile (\<lambda>c. c \<noteq> CHR '';'') seg, tl (dropWhile (\<lambda>c. c \<noteq> CHR '';'') seg))
               else (url, []))
      else if CHR '';'' \<in> set url
      then (takeWhile (\<lambda>c. c \<noteq> CHR '';'') url, tl (dropWhile (\<lambda>c. c \<noteq> CHR '';'') url))
      else (butlast url, url))"

record parse_result =
  scheme :: string
  netloc :: string
  path :: string
  params :: string
  query :: string
  fragment :: string

definition urlparse :: "(string \<Rightarrow> bool) \<Rightarrow> string \<Rightarrow> parse_result option" where
  "urlparse ip_ok url =
     (case urlsplit ip_ok url of
        None \<Rightarrow> None
      | Some (sch, nl, u, q, fr) \<Rightarrow>
          let (u1, ps) = (if sch \<in> set uses_params \<and> CHR '';'' \<in> set u then splitparams u else (u, []))
          in Some \<lparr>scheme = sch, netloc = nl, path = u1, params = ps, query = q, fragment = fr\<rparr>)"

definition urlunsplit :: "string \<times> string \<times> string \<times> string \<times> string \<Rightarrow> string" where
  "urlunsplit c =
     (case c of (sch, nl, u, q, fr) \<Rightarrow>
        let u1 = (if nl \<noteq> [] \<or> (sch \<noteq> [] \<and> sch \<in> set uses_netloc) \<or> take 2 u = ''//''
                  then ''//'' @ nl @ (if u \<noteq> [] \<and> take 1 u \<noteq> ''/'' then ''/'' @ u else u)
                  else u);
            u2 = (if sch \<noteq> [] then sch @ '':'' @ u1 else u1);
            u3 = (if q \<noteq> [] then u2 @ ''?'' @ q else u2)
        in if fr \<noteq> [] then u3 @ ''#'' @ fr else u3)"

definition urlunparse :: "string \<times> string \<times> string \<times> string \<times> string \<times> string \<Rightarrow> string" where
  "urlunparse c =
     (case c of (sch, nl, u, ps, q, fr) \<Rightarrow>
        urlunsplit (sch, nl, (if ps \<noteq> [] then u @ '';'' @ ps else u), q, fr))"

subsection \<open>parse_qs and urlencode\<close>

text \<open>
  Names and values of a query are decoded to Unicode text, which goes beyond 255: they
  are lists of code points (\<open>ustr\<close>). \<open>unquote_to_bytes\<close> replaces every \<open>%XX\<close> with two
  hexadecimal digits by its byte; \<open>utf8_decode\<close> is \<open>bytes.decode('utf-8', 'replace')\<close>,
  which puts U+FFFD for every maximal ill-formed piece; \<open>unquote\<close> decodes the runs of
  ASCII characters and keeps the other characters as they are.
\<close>

definition hex_val :: "char \<Rightarrow> nat" where
  "hex_val c =
     (let n = (of_char c :: nat)
      in if n \<le> 57 then n - 48 else if n \<le> 70 then n - 55 else n - 87)"

fun unquote_to_bytes :: "string \<Rightarrow> nat list" where
  "unquote_to_bytes (p # a # b # rest) =
     (if p = CHR ''%'' \<and> is_hex a \<and> is_hex b
      then (16 * hex_val a + hex_val b) # unquote_to_bytes rest
      else of_char p # unquote_to_bytes (a # b # rest))"
| "unquote_to_bytes (p # rest) = of_char p # unquote_to_bytes rest"
| "unquote_to_bytes [] = []"

definition cont :: "nat \<Rightarrow> bool" where
  "cont b \<longleftrightarrow> 128 \<le> b \<and> b \<le> 191"

text \<open>The range of the second byte after a lead byte of a three or four byte sequence.\<close>

definition second_ok :: "nat \<Rightarrow> nat \<Rightarrow> bool" where
  "second_ok b c =
     (if b = 224 then 160 \<le> c \<and> c \<le> 191
      else if b = 237 then 128 \<le> c \<and> c \<le> 159
      else if b = 240 then 144 \<le> c \<and> c \<le> 191
      else if b = 244 then 128 \<le> c \<and> c \<le> 143
      else cont c)"

fun utf8_decode :: "nat list \<Rightarrow> nat list" where
  "utf8_decode [] = []"
| "utf8_decode (b # bs) =
     (if b < 128 then b # utf8_decode bs
      else if 194 \<le> b \<and> b \<le> 223 then
        (case bs of
           c1 # r1 \<Rightarrow>
             if cont c1 then ((b - 192) * 64 + (c1 - 128)) # utf8_decode r1
             else 65533 # utf8_decode bs
         | [] \<Rightarrow> [65533])
      else if 224 \<le> b \<and> b \<le> 239 then
        (case bs of
           c1 # r1 \<Rightarrow>
             if second_ok b c1 then
               (case r1 of
                  c2 # r2 \<Rightarrow>
                    if cont c2
                    then ((b - 224) * 4096 + (c1 - 128) * 64 + (c2 - 128)) # utf8_decode r2
                    else 65533 # utf8_decode r1
                | [] \<Rightarrow> [65533])
             else 65533 # utf8_decode bs
         | [] \<Rightarrow> [65533])
      else if 240 \<le> b \<and> b \<le> 244 then
        (case bs of
           c1 # r1 \<Rightarrow>
             if second_ok b c1 then
               (case r1 of
                  c2 # r2 \<Rightarrow>
                    if cont c2 then
                      (case r2 of
                         c3 # r3 \<Rightarrow>
                           if cont c3
                           then ((b - 240) * 262144 + (c1 - 128) * 4096 + (c2 - 128) * 64 + (c3 - 128))
                                # utf8_decode r3
                           else 65533 # utf8_decode r2
                       | [] \<Rightarrow> [65533])
                    else 65533 # utf8_decode r1
                | [] \<Rightarrow> [65533])
             else 65533 # utf8_decode bs
         | [] \<Rightarrow> [65533])
      else 65533 # utf8_decode bs)"

function unquote_runs :: "string \<Rightarrow> ustr" where
  "unquote_runs [] = []"
| "unquote_runs (c # cs) =
     (if is_ascii c
      then utf8_decode (unquote_to_bytes (takeWhile is_ascii (c # cs))) @
           unquote_runs (dropWhile is_ascii (c # cs))
      else of_char c # unquote_runs cs)"
  by pat_completeness auto
termination
  by (relation "measure length") (auto simp: less_Suc_eq_le length_dropWhile_le)

definition unquote :: "string \<Rightarrow> ustr" where
  "unquote s = (if CHR ''%'' \<notin> set s then map of_char s else unquote_runs s)"

text \<open>
  \<open>quote_plus\<close>: the text is encoded in UTF-8 (strictly: a surrogate or a number that
  is no code point raises), the unreserved bytes stay, a space becomes \<open>+\<close> and every
  other byte becomes \<open>%XX\<close> with capital digits.
\<close>

definition utf8_encode :: "nat \<Rightarrow> nat list option" where
  "utf8_encode c =
     (if c < 128 then Some [c]
      else if c < 2048 then Some [192 + c div 64, 128 + c mod 64]
      else if 55296 \<le> c \<and> c \<le> 57343 then None
      else if c < 65536 then Some [224 + c div 4096, 128 + (c div 64) mod 64, 128 + c mod 64]
      else if c < 1114112
      then Some [240 + c div 262144, 128 + (c div 4096) mod 64, 128 + (c div 64) mod 64, 128 + c mod 64]
      else None)"

definition always_safe :: string where
  "always_safe = ''ABCDEFGHIJKLMNOPQRSTUVWXYZabcdefghijklmnopqrstuvwxyz0123456789_.-~''"

definition hex_upper :: "nat \<Rightarrow> char" where
  "hex_upper n = ''0123456789ABCDEF'' ! n"

definition quote_byte :: "nat \<Rightarrow> string" where
  "quote_byte b =
     (if char_of b \<in> set always_safe then [char_of b]
      else if b = 32 then ''+''
      else [CHR ''%'', hex_upper (b div 16), hex_upper (b mod 16)])"

fun quote_plus :: "ustr \<Rightarrow> string option" where
  "quote_plus [] = Some []"
| "quote_plus (c # cs) =
     (case utf8_encode c of
        None \<Rightarrow> None
      | Some bytes \<Rightarrow>
          (case quote_plus cs of
             None \<Rightarrow> None
           | Some rest \<Rightarrow> Some (concat (map quote_byte bytes) @ rest)))"

definition plus_to_space :: "string \<Rightarrow> string" where
  "plus_to_space s = map (\<lambda>c. if c = CHR ''+'' then CHR '' '' else c) s"

text \<open>
  \<open>parse_qsl\<close> with the defaults: the fields are separated by \<open>&\<close>; a field without
  \<open>=\<close> or with an empty value is dropped. \<open>parse_qs\<close> collects the values of each name
  in a dictionary, which keeps the names in the order of their first occurrence.
\<close>

definition parse_field :: "string \<Rightarrow> (ustr \<times> ustr) list" where
  "parse_field name_value =
     (case split_first CHR ''='' name_value of
        None \<Rightarrow> []
      | Some (name, val) \<Rightarrow>
          if val \<noteq> [] then [(unquote (plus_to_space name), unquote (plus_to_space val))] else [])"

definition parse_qsl :: "string \<Rightarrow> (ustr \<times> ustr) list" where
  "parse_qsl qs = concat (map parse_field (split_on CHR ''&'' qs))"

fun dict_append :: "(ustr \<times> ustr list) list \<Rightarrow> ustr \<Rightarrow> ustr \<Rightarrow> (ustr \<times> ustr list) list" where
  "dict_append [] name val = [(name, [val])]"
| "dict_append ((k, vs) # d) name val =
     (if k = name then (k, vs @ [val]) # d else (k, vs) # dict_append d name val)"

definition parse_qs :: "string \<Rightarrow> (ustr \<times> ustr list) list" where
  "parse_qs qs = fold (\<lambda>(name, val) d. dict_append d name val) (parse_qsl qs) []"

text \<open>\<open>urlencode(query, doseq=True)\<close> on such a dictionary.\<close>

fun encode_values :: "string \<Rightarrow> ustr list \<Rightarrow> string list option" where
  "encode_values k [] = Some []"
| "encode_values k (v # vs) =
     (case quote_plus v of
        None \<Rightarrow> None
      | Some e \<Rightarrow> (case encode_values k vs of None \<Rightarrow> None | Some l \<Rightarrow> Some ((k @ ''='' @ e) # l)))"

fun encode_items :: "(ustr \<times> ustr list) list \<Rightarrow> string list option" where
  "encode_items [] = Some []"
| "encode_items ((k, vs) # d) =
     (case quote_plus k of
        None \<Rightarrow> None
      | Some qk \<Rightarrow>
          (case encode_values qk vs of
             None \<Rightarrow> None
           | Some l \<Rightarrow> (case encode_items d of None \<Rightarrow> None | Some l2 \<Rightarrow> Some (l @ l2))))"

definition urlencode :: "(ustr \<times> ustr list) list \<Rightarrow> string option" where
  "urlencode d = map_option (join_with ''&'') (encode_items d)"

definition ustr_of :: "string \<Rightarrow> ustr" where
  "ustr_of s = map of_char s"

subsection \<open>normalize_url\<close>

text \<open>
  The function itself. An exception inside the \<open>try\<close> block (from \<open>urlparse\<close> or from
  \<open>urlencode\<close>) leads to the fallback at the end, as does a host of no known platform.
\<close>

definition normalize_url :: "(string \<Rightarrow> bool) \<Rightarrow> string \<Rightarrow> string" where
  "normalize_url ip_ok url0 =
     (if url0 = [] then url0
      else
        let url = strip url0
        in case urlparse ip_ok url of
             None \<Rightarrow> rstrip url
           | Some parsed \<Rightarrow>
               if contains ''instagram.com'' (netloc parsed) \<or> contains ''facebook.com'' (netloc parsed) then
                 (let qd = parse_qs (query parsed);
                      filtered_query = (case map_of qd (ustr_of ''img_index'') of
                                          Some v \<Rightarrow> [(ustr_of ''img_index'', v)]
                                        | None \<Rightarrow> [])
                  in case urlencode filtered_query of
                       None \<Rightarrow> rstrip url
                     | Some new_query \<Rightarrow>
                         urlunparse (scheme parsed, netloc parsed, rstrip_char CHR ''/'' (path parsed),
                                     params parsed, new_query, []))
               else if contains ''tiktok.com'' (netloc parsed) then
                 urlunparse (scheme parsed, netloc parsed, rstrip_char CHR ''/'' (path parsed),
                             params parsed, [], [])
               else if contains ''youtube.com'' (netloc parsed) \<or> contains ''youtu.be'' (netloc parsed) then
                 (let qd = parse_qs (query parsed);
                      allowed_params = [ustr_of ''v'', ustr_of ''t''];
                      filtered_query = filter (\<lambda>(k, v). k \<in> set allowed_params) qd
                  in case urlencode filtered_query of
                       None \<Rightarrow> rstrip url
                     | Some new_query \<Rightarrow>
                         urlunparse (scheme parsed, netloc parsed, rstrip_char CHR ''/'' (path parsed),
                                     params parsed, new_query, []))
               else if contains ''soundcloud.com'' (netloc parsed) then
                 urlunparse (scheme parsed, netloc parsed, rstrip_char CHR ''/'' (path parsed),
                             params parsed, [], [])
               else rstrip url)"

text \<open>A stand-in for \<open>ip_ok\<close> in closed statements about urls without square brackets.\<close>

definition no_ip :: "string \<Rightarrow> bool" where
  "no_ip hostname = False"

text \<open>The vocabulary of the claims about \<open>normalize_url\<close>.\<close>

definition no_space :: "string \<Rightarrow> bool" where
  "no_space s = list_all (\<lambda>c. \<not> is_pyspace c) s"

definition valid_scheme :: "string \<Rightarrow> bool" where
  "valid_scheme s \<longleftrightarrow> s \<noteq> [] \<and> is_ascii_alpha (hd s) \<and> list_all (\<lambda>c. c \<in> set scheme_chars) s"

definition valid_host :: "string \<Rightarrow> bool" where
  "valid_host h \<longleftrightarrow> h \<noteq> [] \<and> no_space h \<and> list_all (\<lambda>c. c \<notin> set ''/?#[]'') h"

definition valid_path :: "string \<Rightarrow> bool" where
  "valid_path p \<longleftrightarrow> (p = [] \<or> hd p = CHR ''/'') \<and> no_space p \<and> list_all (\<lambda>c. c \<notin> set ''?#;'') p"

definition valid_query :: "string \<Rightarrow> bool" where
  "valid_query q \<longleftrightarrow> no_space q \<and> CHR ''#'' \<notin> set q"

text \<open>
  The query parameters that survive for a host: \<open>img_index\<close> for Instagram and Facebook,
  none for TikTok, \<open>v\<close> and \<open>t\<close> for YouTube, none for SoundCloud; \<open>None\<close> for a host
  of no supported platform. The order of the tests is the order of the code.
\<close>

definition whitelist :: "string \<Rightarrow> ustr list option" where
  "whitelist host =
     (if contains ''instagram.com'' host \<or> contains ''facebook.com'' host then Some [ustr_of ''img_index'']
      else if contains ''tiktok.com'' host then Some []
      else if contains ''youtube.com'' host \<or> contains ''youtu.be'' host then Some [ustr_of ''v'', ustr_of ''t'']
      else if contains ''soundcloud.com'' host then Some []
      else None)"

definition whitelisted :: "ustr list \<Rightarrow> string \<Rightarrow> (ustr \<times> ustr list) list" where
  "whitelisted wl q = filter (\<lambda>(k, v). k \<in> set wl) (parse_qs q)"

definition query_suffix :: "string \<Rightarrow> string" where
  "query_suffix nq = (if nq = [] then [] else ''?'' @ nq)"

text \<open>
  The code points that UTF-8 can encode (no surrogates), and the dictionaries of names and
  values made of them: what \<open>parse_qs\<close> produces, and what \<open>urlencode\<close> accepts.
\<close>

definition valid_cp :: "nat \<Rightarrow> bool" where
  "valid_cp c \<longleftrightarrow> c < 1114112 \<and> \<not> (55296 \<le> c \<and> c \<le> 57343)"

definition valid_dict :: "(ustr \<times> ustr list) list \<Rightarrow> bool" where
  "valid_dict d = list_all (\<lambda>(k, vs). list_all valid_cp k \<and> list_all (list_all valid_cp) vs) d"

text \<open>
  Dictionaries as \<open>parse_qs\<close> builds them: every name has at least one value and no value
  is empty. \<open>items_of\<close> lists the pairs of name and value in the order of \<open>urlencode\<close>.
\<close>

definition full_dict :: "(ustr \<times> ustr list) list \<Rightarrow> bool" where
  "full_dict d = list_all (\<lambda>(k, vs). vs \<noteq> [] \<and> list_all (\<lambda>v. v \<noteq> []) vs) d"

definition items_of :: "(ustr \<times> ustr list) list \<Rightarrow> (ustr \<times> ustr) list" where
  "items_of d = concat (map (\<lambda>(k, vs). map (\<lambda>v. (k, v)) vs) d)"

section \<open>Theorems\<close>

subsection \<open>needs_telegram_optimization\<close>

text \<open>
  Claim C5. Whenever \<open>needs_telegram_optimization\<close> answers \<open>False\<close>, the size of the
  file is known and at most 48 MB, and the video stream that the probe reports (when it
  reports one) has an H.264 codec and, if it is portrait (height above width), a
  display aspect ratio that is present. Whenever the probe fails, the answer is
  \<open>True\<close>.
\<close>

theorem needs_telegram_optimization_sound:
  "(fst (needs_telegram_optimization f) = False \<longrightarrow>
      (\<exists>sz. file_size f = Some sz \<and> sz \<le> mb48) \<and>
      (\<forall>s. first_video_stream f = Some s \<longrightarrow>
           is_h264 s \<and> (is_portrait s \<longrightarrow> aspect_ratio_present s))) \<and>
   (probe f = ProbeError \<longrightarrow> fst (needs_telegram_optimization f) = True)"
proof (intro conjI impI)
  assume "probe f = ProbeError"
  then show "fst (needs_telegram_optimization f) = True"
    by (simp add: needs_telegram_optimization_def Let_def split: option.splits)
next
  assume no: "fst (needs_telegram_optimization f) = False"
  then obtain sz where sz: "file_size f = Some sz"
    by (cases "file_size f") (simp_all add: needs_telegram_optimization_def)
  from no sz have small: "\<not> real sz / (1024 * 1024) > 48"
    by (auto simp: needs_telegram_optimization_def Let_def split: if_splits)
  then have "real sz \<le> 48 * 1024 * 1024"
    by (simp add: field_simps)
  then have "sz \<le> mb48"
    unfolding mb48_def by linarith
  with sz show "\<exists>sz. file_size f = Some sz \<and> sz \<le> mb48"
    by blast
next
  assume no: "fst (needs_telegram_optimization f) = False"
  show "\<forall>s. first_video_stream f = Some s \<longrightarrow>
           is_h264 s \<and> (is_portrait s \<longrightarrow> aspect_ratio_present s)"
  proof (intro allI impI)
    fix s
    assume fs: "first_video_stream f = Some s"
    then obtain rest where pr: "probe f = ProbeJson (Some (s # rest))"
      by (auto simp: first_video_stream_def split: probe_result.splits option.splits list.splits)
    from no obtain sz where sz: "file_size f = Some sz"
      by (cases "file_size f") (simp_all add: needs_telegram_optimization_def)
    from no sz pr
    have codec: "lower (case codec_name s of Some c \<Rightarrow> c | None \<Rightarrow> []) \<in> set [''h264'', ''libx264'']"
      and shape: "\<not> ((case height s of Some v \<Rightarrow> v | None \<Rightarrow> 0) > (case width s of Some v \<Rightarrow> v | None \<Rightarrow> 0)
                    \<and> ((case display_aspect_ratio s of Some v \<Rightarrow> v | None \<Rightarrow> []) = []
                       \<or> (case display_aspect_ratio s of Some v \<Rightarrow> v | None \<Rightarrow> []) = ''N/A''))"
      by (auto simp: needs_telegram_optimization_def Let_def split: if_splits)
    from codec have "is_h264 s"
      by (cases "codec_name s") (auto simp: is_h264_def lower_def)
    moreover from shape have "is_portrait s \<longrightarrow> aspect_ratio_present s"
      by (cases "display_aspect_ratio s") (auto simp: is_portrait_def aspect_ratio_present_def)
    ultimately show "is_h264 s \<and> (is_portrait s \<longrightarrow> aspect_ratio_present s)"
      by blast
  qed
qed

lemma lower_H264: "lower ''H264'' = ''h264''"
  by code_simp

theorem needs_telegram_optimization_sound_witness:
  "(fst (needs_telegram_optimization
           \<lparr>file_size = Some 1000,
            probe = ProbeJson (Some [\<lparr>codec_name = Some ''H264'', width = Some 720, height = Some 1280,
                                      display_aspect_ratio = Some ''9:16''\<rparr>])\<rparr>) = False) \<and>
   (\<exists>sz. Some (1000::nat) = Some sz \<and> sz \<le> mb48) \<and>
   is_h264 \<lparr>codec_name = Some ''H264'', width = Some 720, height = Some 1280,
            display_aspect_ratio = Some ''9:16''\<rparr> \<and>
   is_portrait \<lparr>codec_name = Some ''H264'', width = Some 720, height = Some 1280,
            display_aspect_ratio = Some ''9:16''\<rparr> \<and>
   aspect_ratio_present \<lparr>codec_name = Some ''H264'', width = Some 720, height = Some 1280,
            display_aspect_ratio = Some ''9:16''\<rparr> \<and>
   fst (needs_telegram_optimization \<lparr>file_size = Some 1000, probe = ProbeError\<rparr>) = True"
  using needs_telegram_optimization_sound
          [of "\<lparr>file_size = Some 1000,
            probe = ProbeJson (Some [\<lparr>codec_name = Some ''H264'', width = Some 720, height = Some 1280,
                                      display_aspect_ratio = Some ''9:16''\<rparr>])\<rparr>"]
        needs_telegram_optimization_sound [of "\<lparr>file_size = Some 1000, probe = ProbeError\<rparr>"]
  by (simp add: needs_telegram_optimization_def first_video_stream_def lower_H264
        is_portrait_def mb48_def Let_def)

subsection \<open>generate_thumbnail\<close>

text \<open>
  Claim C6. The claim says that no thumbnail is returned when the JPEG re-encoded at
  quality 5 is still above 200 KB. The code deletes the re-encoded file and returns the
  path of the first JPEG, which is above 200 KB: here a first frame of 300 KB whose
  re-encoding has 250 KB.
\<close>

theorem generate_thumbnail_returns_oversize:
  "generate_thumbnail ffmpeg_oversize True ''/dl/v.mp4'' ''v'' ''/dl'' ''1.0'' Map.empty
     = (Some ''/dl/v_thumb.jpg'', [''/dl/v_thumb.jpg'' \<mapsto> 300 * 1024]) \<and>
   (300 * 1024 :: nat) > 200 * 1024"
  by (simp add: generate_thumbnail_def ffmpeg_oversize_def thumbnail_cmd_def thumbnail_cmd_compress_def
        nice_prefix_def path_join_def thumbnail_return_def fun_eq_iff Let_def)

subsection \<open>compress_video\<close>

text \<open>
  Claim C7 as stated fails for a duration of 3136 seconds, where the audio alone uses
  the 49 MB: the formula of the claim gives the floor of 50 kbit/s, the code encodes
  with 90 kbit/s.
\<close>

theorem compress_video_bitrate_counterexample:
  "map_option b_v (compress_video_cmd (Some 3136) 49) = Some 90 \<and>
   py_int (spec_video_bitrate_kbps 3136 49) = 50 \<and>
   map_option b_v (compress_video_cmd (Some 3136) 49) \<noteq> Some (py_int (spec_video_bitrate_kbps 3136 49))"
  by (simp add: compress_video_cmd_def spec_video_bitrate_kbps_def py_int_def Let_def)

text \<open>
  Claim C7, amended. For every measured duration \<open>d > 0\<close> and the target of 49 MB the
  command line carries the whole kbit/s of the bitrate \<open>v\<close>, of \<open>1.5 v\<close> as maxrate and
  of \<open>2 v\<close> as bufsize, with the audio at 128 kbit/s, where \<open>v\<close> is the formula of the
  claim with its floor of 50 kbit/s for \<open>d\<close> below 3136 seconds and 90 kbit/s from
  3136 seconds on.
\<close>

theorem compress_video_bitrate:
  assumes "d > 0"
  shows "compress_video_cmd (Some d) 49 =
           Some \<lparr> b_v = py_int (code_video_bitrate_kbps d),
                  maxrate = py_int (code_video_bitrate_kbps d * 1.5),
                  bufsize = py_int (code_video_bitrate_kbps d * 2),
                  b_a = 128 \<rparr>"
proof (cases "d < 3136")
  case True
  then have "49 * 8 * 1024 * 1024 - 128 * 1024 * d > 0" by simp
  with assms True show ?thesis
    by (simp add: compress_video_cmd_def code_video_bitrate_kbps_def Let_def max_def not_le)
next
  case False
  then have "49 * 8 * 1024 * 1024 - 128 * 1024 * d \<le> 0" by simp
  with assms False show ?thesis
    by (simp add: compress_video_cmd_def code_video_bitrate_kbps_def Let_def)
qed

theorem compress_video_bitrate_witness:
  "(60::real) > 0 \<and>
   compress_video_cmd (Some 60) 49 = Some \<lparr> b_v = 5905, maxrate = 8858, bufsize = 11811, b_a = 128 \<rparr>"
  using compress_video_bitrate [of 60]
  by (simp add: code_video_bitrate_kbps_def py_int_def)

subsection \<open>The voice buffer\<close>

declare dec.simps [simp del]












subsection \<open>The order of a voice batch\<close>

lemma map_raise_Some:
  "\<forall>x \<in> set xs. f x \<noteq> None \<Longrightarrow> map_raise f xs = Some (map (\<lambda>x. the (f x)) xs)"
  by (induction xs) auto

lemma fold_futures:
  "fold (\<lambda>i futures. if i < n then futures(i := Some (g i)) else futures) order s j =
     (if j \<in> set order \<and> j < n then Some (g j) else s j)"
  by (induction order arbitrary: s) auto

lemma run_pool_eq:
  "run_pool tr af order i = (if i \<in> set order \<and> i < length af then Some (tr (af ! i)) else None)"
  unfolding run_pool_def by (simp add: fold_futures)

lemma collect_results_fold:
  assumes "\<forall>i \<in> set idxs. i < length af \<and> i \<in> set order"
  shows "collect_results (run_pool tr af order) idxs txts =
           Some (fold (\<lambda>i t. t[i := text_of (tr (af ! i))]) idxs txts)"
  using assms
  by (induction idxs arbitrary: txts) (auto simp: run_pool_eq text_of_def split: option.splits)

lemma fold_update_length: "length (fold (\<lambda>i t. t[i := g i]) idxs txts) = length txts"
  by (induction idxs arbitrary: txts) auto

lemma fold_update_nth:
  "j < length txts \<Longrightarrow>
   fold (\<lambda>i t. t[i := g i]) idxs txts ! j = (if j \<in> set idxs then g j else txts ! j)"
proof (induction idxs arbitrary: txts rule: rev_induct)
  case Nil
  then show ?case by simp
next
  case (snoc x xs)
  have len: "j < length (fold (\<lambda>i t. t[i := g i]) xs txts)"
    using snoc.prems by (simp add: fold_update_length)
  show ?case
  proof (cases "x = j")
    case True
    with len show ?thesis by simp
  next
    case False
    with snoc.IH [OF snoc.prems] show ?thesis by simp
  qed
qed

lemma fold_update_all:
  "fold (\<lambda>i t. t[i := g i]) [0 ..< n] (replicate n x) = map g [0 ..< n]"
  by (rule nth_equalityI) (simp_all add: fold_update_length fold_update_nth)

lemma collect_results_all:
  assumes "{..< length af} \<subseteq> set order"
  shows "collect_results (run_pool tr af order) [0 ..< length af] (replicate (length af) []) =
           Some (map (\<lambda>b. text_of (tr b)) af)"
proof -
  have "\<forall>i \<in> set [0 ..< length af]. i < length af \<and> i \<in> set order"
    using assms by auto
  then have c: "collect_results (run_pool tr af order) [0 ..< length af] (replicate (length af) []) =
           Some (fold (\<lambda>i t. t[i := text_of (tr (af ! i))]) [0 ..< length af] (replicate (length af) []))"
    by (rule collect_results_fold)
  have f: "fold (\<lambda>i t. t[i := text_of (tr (af ! i))]) [0 ..< length af] (replicate (length af) [])
              = map (\<lambda>i. text_of (tr (af ! i))) [0 ..< length af]"
    by (rule fold_update_all)
  have m: "map (\<lambda>i. text_of (tr (af ! i))) [0 ..< length af] = map (\<lambda>b. text_of (tr b)) af"
    by (rule nth_equalityI) simp_all
  show ?thesis unfolding c f m ..
qed

lemma ustrip_Nil [simp]: "ustrip [] = []"
  by (simp add: ustrip_def)

lemma combine_index:
  "combine k ps =
     concat (map (\<lambda>i. section_text (k + i) (fst (ps ! i)) (snd (ps ! i)))
                 (filter (\<lambda>i. ustrip (fst (ps ! i)) \<noteq> []) [0 ..< length ps]))"
proof (induction ps arbitrary: k)
  case Nil
  then show ?case by simp
next
  case (Cons p rest)
  obtain tx msg where p: "p = (tx, msg)" by (cases p)
  have upt: "[0 ..< Suc (length rest)] = 0 # map Suc [0 ..< length rest]"
    by (simp add: upt_conv_Cons map_Suc_upt del: upt_Suc)
  have nonblank: "(tx \<noteq> [] \<and> ustrip tx \<noteq> []) = (ustrip tx \<noteq> [])"
    by auto
  show ?case
    unfolding p
    by (simp add: nonblank Cons.IH filter_map comp_def upt del: upt_Suc)
qed

lemma sort_key_of_perm:
  assumes "sorted_wrt (<) (map message_id ms)" and "mset buffer = mset ms"
  shows "sort_key message_id buffer = ms"
proof -
  have d: "distinct (map message_id ms)"
    using assms(1) by (simp add: strict_sorted_iff)
  have s: "sorted (map message_id ms)"
    using assms(1) by (simp add: strict_sorted_iff)
  have "set buffer = set ms" using assms(2) by (rule mset_eq_setD)
  moreover have "inj_on message_id (set ms)" using d by (simp add: distinct_map)
  ultimately have "inj_on message_id (set buffer)" by simp
  from sort_key_inj_key_eq [OF assms(2) this s] show ?thesis .
qed

lemma process_voice_batch_sorted:
  assumes voice: "\<forall>m \<in> set ms. is_voice m"
    and ne: "ms \<noteq> []"
    and fetch: "\<forall>m \<in> set ms. fetchable env m"
    and compl: "{..< length ms} \<subseteq> set (completion env)"
  shows "process_voice_batch env ms =
           (if spec_transcript env ms = [] then NothingRecognised else Transcript (spec_transcript env ms))"
proof -
  have filt: "filter (\<lambda>m. content_type m = ''voice'' \<or> content_type m = ''video_note'') ms = ms"
    using voice by (simp add: is_voice_def)
  define dl where "dl = map (\<lambda>m. the (download env m)) ms"
  define af where "af = map (\<lambda>a. the (convert env a)) dl"
  have dl: "map_raise (download env) ms = Some dl"
    unfolding dl_def using fetch by (intro map_raise_Some) (auto simp: fetchable_def split: option.splits)
  have af: "map_raise (convert env) dl = Some af"
    unfolding af_def dl_def using fetch by (intro map_raise_Some) (auto simp: fetchable_def split: option.splits)
  have len: "length af = length ms" by (simp add: af_def dl_def)
  have workers: "max_workers (length af) \<noteq> 0"
    using ne by (simp add: max_workers_def len)
  have coll: "collect_results (run_pool (transcribe env) af (completion env))
                [0 ..< length af] (replicate (length af) []) = Some (map (\<lambda>b. text_of (transcribe env b)) af)"
    using compl by (intro collect_results_all) (simp add: len)
  have texts: "map (\<lambda>b. text_of (transcribe env b)) af = map (message_text env) ms"
    using fetch
    by (auto simp: af_def dl_def message_text_def text_of_def fetchable_def split: option.splits)
  have comb: "combine 0 (zip (map (message_text env) ms) ms) =
      concat (map (\<lambda>i. section_text i (message_text env (ms ! i)) (ms ! i))
                  (filter (\<lambda>i. ustrip (message_text env (ms ! i)) \<noteq> []) [0 ..< length ms]))"
    unfolding combine_index
    by (intro arg_cong [where f = concat] map_cong filter_cong refl) simp_all
  show ?thesis
    using ne workers
    by (simp add: process_voice_batch_def filt dl af coll texts comb spec_transcript_def Let_def)
qed

text \<open>
  Claim C8. Let \<open>ms\<close> be voice messages with ascending ids, buffered in any order of
  arrival, whose audio can be fetched, and let every transcription task complete, in
  any order. Then \<open>process_batch\<close> flushes the buffer and publishes the transcript
  whose section \<open>i\<close> is the transcription of the \<open>i\<close>-th message by id; messages with an
  empty transcription keep their index and are left out of the text (when all are
  empty, nothing is published). The pool has \<open>min(n, 16)\<close> workers.
\<close>

theorem voice_batch_order:
  assumes "\<forall>m \<in> set ms. is_voice m"
    and "sorted_wrt (<) (map message_id ms)"
    and "ms \<noteq> []"
    and "mset buffer = mset ms"
    and "user_message_batches st user_id = Some buffer"
    and "\<forall>m \<in> set ms. fetchable env m"
    and "{..< length ms} \<subseteq> set (completion env)"
  shows "snd (process_batch env st user_id now) =
           Some (buffer, Some (if spec_transcript env ms = [] then NothingRecognised
                               else Transcript (spec_transcript env ms))) \<and>
         max_workers (length ms) = min (length ms) 16"
proof -
  have set_eq: "set buffer = set ms" using assms(4) by (rule mset_eq_setD)
  have bne: "buffer \<noteq> []" using assms(3,4) by auto
  have filt: "filter (\<lambda>m. content_type m = ''voice'' \<or> content_type m = ''video_note'') buffer = buffer"
    using assms(1) set_eq by (auto simp: is_voice_def)
  have srt: "sort_key message_id buffer = ms"
    using assms(2,4) by (rule sort_key_of_perm)
  from process_voice_batch_sorted [OF assms(1,3,6,7)] bne assms(5)
  show ?thesis
    by (simp add: process_batch_def filt srt Let_def max_workers_def)
qed

lemma spec_demo:
  "spec_transcript env_demo [voice_msg 1001, voice_msg 1002, voice_msg 1003] =
     [45, 45, 45, 32] @ label_voice @ [32, 49, 32, 45, 45, 45, 10, 97, 10, 10, 45, 45, 45, 32] @
     label_voice @ [32, 51, 32, 45, 45, 45, 10, 99]"
  by (simp add: spec_transcript_def message_text_def env_demo_def voice_msg_def section_text_def
        ustrip_def is_space_def dec.simps label_voice_def upt_rec)

theorem voice_batch_order_witness:
  "list_all is_voice [voice_msg 1001, voice_msg 1002, voice_msg 1003] \<and>
   sorted_wrt (<) (map message_id [voice_msg 1001, voice_msg 1002, voice_msg 1003]) \<and>
   mset [voice_msg 1003, voice_msg 1001, voice_msg 1002] = mset [voice_msg 1001, voice_msg 1002, voice_msg 1003] \<and>
   user_message_batches st_demo 5 = Some [voice_msg 1003, voice_msg 1001, voice_msg 1002] \<and>
   list_all (fetchable env_demo) [voice_msg 1001, voice_msg 1002, voice_msg 1003] \<and>
   {..< 3} \<subseteq> set (completion env_demo) \<and>
   snd (process_batch env_demo st_demo 5 0) =
     Some ([voice_msg 1003, voice_msg 1001, voice_msg 1002],
           Some (Transcript
             ([45, 45, 45, 32] @ label_voice @ [32, 49, 32, 45, 45, 45, 10, 97, 10, 10, 45, 45, 45, 32] @
              label_voice @ [32, 51, 32, 45, 45, 45, 10, 99])))"
proof -
  let ?ms = "[voice_msg 1001, voice_msg 1002, voice_msg 1003]"
  let ?buffer = "[voice_msg 1003, voice_msg 1001, voice_msg 1002]"
  have h1: "\<forall>m \<in> set ?ms. is_voice m" by (simp add: is_voice_def voice_msg_def)
  have h2: "sorted_wrt (<) (map message_id ?ms)" by (simp add: voice_msg_def)
  have h3: "?ms \<noteq> []" by simp
  have h4: "mset ?buffer = mset ?ms" by (simp add: add.commute)
  have h5: "user_message_batches st_demo 5 = Some ?buffer" by (simp add: st_demo_def)
  have h6: "\<forall>m \<in> set ?ms. fetchable env_demo m" by (simp add: fetchable_def env_demo_def)
  have h7: "{..< length ?ms} \<subseteq> set (completion env_demo)" by (auto simp: env_demo_def)
  have h7': "{..< 3} \<subseteq> set (completion env_demo)" by (auto simp: env_demo_def)
  have ne: "spec_transcript env_demo ?ms \<noteq> []" unfolding spec_demo by simp
  from voice_batch_order [OF h1 h2 h3 h4 h5 h6 h7, of 0] ne
  have "snd (process_batch env_demo st_demo 5 0) =
          Some (?buffer, Some (Transcript (spec_transcript env_demo ?ms)))"
    by simp
  then show ?thesis
    unfolding spec_demo using h1 h2 h4 h5 h6 h7' by (simp add: list_all_iff)
qed

subsection \<open>The file cache\<close>

lemma find_map_same:
  assumes "\<And>x. P (f x) = P x"
  shows "find P (map f xs) = map_option f (find P xs)"
  using assms by (induction xs) auto

lemma find_append_new:
  "find P xs = None \<Longrightarrow> P x \<Longrightarrow> find P (xs @ [x]) = Some x"
  by (induction xs) (auto split: if_splits)

lemma select_after_save:
  assumes "save_file_to_cache db url file_ids media_type user_id now = (db', rid)"
  shows "\<exists>r. select_by_url db' url = Some r \<and> rid = Some (row_id r) \<and>
             row_file_id r = (case file_ids of IdList ids \<Rightarrow> json_dumps ids | SingleId s \<Rightarrow> s) \<and>
             row_media_type r = (case file_ids of IdList ids \<Rightarrow> coerce media_type (length ids)
                                                | SingleId s \<Rightarrow> media_type)"
proof (cases "select_by_url db url")
  case None
  with assms show ?thesis
    by (auto simp: save_file_to_cache_def select_by_url_def Let_def coerce_def find_append_new
             split: file_ids_arg.splits)
next
  case (Some existing)
  define upd :: "cache_row \<Rightarrow> cache_row" where "upd = (\<lambda>r. if row_id r = row_id existing
       then r\<lparr>row_file_id := (case file_ids of IdList ids \<Rightarrow> json_dumps ids | SingleId s \<Rightarrow> s),
              row_media_type := (case file_ids of IdList ids \<Rightarrow> coerce media_type (length ids)
                                                | SingleId s \<Rightarrow> media_type),
              row_uploader_id := user_id, row_created_at := now\<rparr>
       else r)"
  have db': "file_cache db' = map upd (file_cache db)" and rid: "rid = Some (row_id existing)"
    using assms Some
    by (auto simp: save_file_to_cache_def Let_def upd_def coerce_def split: file_ids_arg.splits)
  have "find (\<lambda>r. row_url r = url) (map upd (file_cache db)) =
          map_option upd (find (\<lambda>r. row_url r = url) (file_cache db))"
    by (rule find_map_same) (simp add: upd_def)
  with Some db' have "select_by_url db' url = Some (upd existing)"
    by (simp add: select_by_url_def)
  with rid show ?thesis by (simp add: upd_def)
qed

lemma urls_after_save:
  assumes "save_file_to_cache db url file_ids media_type user_id now = (db', rid)"
  shows "map row_url (file_cache db') =
           (if select_by_url db url = None then map row_url (file_cache db) @ [url]
            else map row_url (file_cache db))"
proof -
  have same: "\<And>c a b u n rows. map row_url (map (\<lambda>r::cache_row. if row_id r = c
       then r\<lparr>row_file_id := a, row_media_type := b, row_uploader_id := u, row_created_at := n\<rparr>
       else r) rows) = map row_url rows"
    by (simp add: comp_def if_distrib cong: if_cong)
  from assms show ?thesis
    by (auto simp: save_file_to_cache_def Let_def same split: option.splits prod.splits)
qed

text \<open>
  Claim C4. Let \<open>ids\<close> be a non-empty list of file ids that the JSON decoder reads back
  from its encoding. Then \<open>save_file_to_cache\<close> upserts by url (the row of the url is
  replaced in place, or one row is appended when there was none) and returns the id of
  the row of that url, and \<open>get_cached_file\<close> on the same url then returns exactly
  \<open>ids\<close> with the kind \<open>carousel\<close> when there are several ids and the given kind
  otherwise.
\<close>

theorem cache_round_trip:
  assumes "ids \<noteq> []"
    and "loads (json_dumps ids) = Some (JArray (map JString ids))"
    and "save_file_to_cache db url (IdList ids) kind uid now = (db', rid)"
  shows "(\<exists>r. select_by_url db' url = Some r \<and> rid = Some (row_id r)) \<and>
         map row_url (file_cache db') =
           (if select_by_url db url = None then map row_url (file_cache db) @ [url]
            else map row_url (file_cache db)) \<and>
         get_cached_file loads db' url = Some (map JString ids, coerce kind (length ids))"
proof -
  from select_after_save [OF assms(3)] obtain r where
    r: "select_by_url db' url = Some r" "rid = Some (row_id r)"
       "row_file_id r = json_dumps ids" "row_media_type r = coerce kind (length ids)"
    by auto
  from r assms(2) have "get_cached_file loads db' url = Some (map JString ids, coerce kind (length ids))"
    by (simp add: get_cached_file_def)
  with r urls_after_save [OF assms(3)] show ?thesis by blast
qed

text \<open>
  Claim C10. The persistence layer does not enforce a non-empty id list: saving the
  empty list succeeds, stores the JSON text \<open>[]\<close> and returns the row id, and
  \<open>get_cached_file\<close> then returns the empty list with the kind as it was given.
\<close>

theorem cache_empty_list:
  assumes "loads ''[]'' = Some (JArray [])"
    and "save_file_to_cache db url (IdList []) kind uid now = (db', rid)"
  shows "(\<exists>r. select_by_url db' url = Some r \<and> rid = Some (row_id r) \<and> row_file_id r = ''[]'') \<and>
         get_cached_file loads db' url = Some ([], kind)"
proof -
  have d: "json_dumps [] = ''[]''" by (simp add: json_dumps_def)
  from select_after_save [OF assms(2)] obtain r where
    r: "select_by_url db' url = Some r" "rid = Some (row_id r)"
       "row_file_id r = ''[]''" "row_media_type r = kind"
    by (auto simp: d coerce_def)
  from r assms(1) have "get_cached_file loads db' url = Some ([], kind)"
    by (simp add: get_cached_file_def)
  with r show ?thesis by blast
qed

lemma dumps_demo: "json_dumps [''p1'', ''p2''] = [CHR ''['', CHR 0x22, CHR ''p'', CHR ''1'', CHR 0x22, CHR '','', CHR '' '',
    CHR 0x22, CHR ''p'', CHR ''2'', CHR 0x22, CHR '']'']"
  by (simp add: json_dumps_def json_dumps_str_def json_escape_char_def)

theorem cache_round_trip_witness:
  "[''p1'', ''p2''] \<noteq> [] \<and>
   loads_demo (json_dumps [''p1'', ''p2'']) = Some (JArray (map JString [''p1'', ''p2''])) \<and>
   snd (save_file_to_cache db_demo ''https://youtu.be/x'' (IdList [''p1'', ''p2'']) ''photo'' 9 1) = Some 4 \<and>
   get_cached_file loads_demo
     (fst (save_file_to_cache db_demo ''https://youtu.be/x'' (IdList [''p1'', ''p2'']) ''photo'' 9 1))
     ''https://youtu.be/x'' = Some ([JString ''p1'', JString ''p2''], ''carousel'')"
proof -
  have h1: "[''p1'', ''p2''] \<noteq> ([] :: string list)" by simp
  have h2: "loads_demo (json_dumps [''p1'', ''p2'']) = Some (JArray (map JString [''p1'', ''p2'']))"
    by (simp add: loads_demo_def dumps_demo)
  have rid: "snd (save_file_to_cache db_demo ''https://youtu.be/x'' (IdList [''p1'', ''p2'']) ''photo'' 9 1) = Some 4"
    by (simp add: save_file_to_cache_def db_demo_def select_by_url_def Let_def)
  have sv: "save_file_to_cache db_demo ''https://youtu.be/x'' (IdList [''p1'', ''p2'']) ''photo'' 9 1 =
     (fst (save_file_to_cache db_demo ''https://youtu.be/x'' (IdList [''p1'', ''p2'']) ''photo'' 9 1),
      snd (save_file_to_cache db_demo ''https://youtu.be/x'' (IdList [''p1'', ''p2'']) ''photo'' 9 1))"
    by (rule surjective_pairing)
  from cache_round_trip [where loads = loads_demo, OF h1 h2 sv]
  have "get_cached_file loads_demo
     (fst (save_file_to_cache db_demo ''https://youtu.be/x'' (IdList [''p1'', ''p2'']) ''photo'' 9 1))
     ''https://youtu.be/x'' = Some ([JString ''p1'', JString ''p2''], ''carousel'')"
    by (simp add: coerce_def)
  with h1 h2 rid show ?thesis by blast
qed

theorem cache_empty_list_witness:
  "loads_demo ''[]'' = Some (JArray []) \<and>
   snd (save_file_to_cache db_demo ''https://t/new'' (IdList []) ''video'' 9 1) = Some 8 \<and>
   get_cached_file loads_demo
     (fst (save_file_to_cache db_demo ''https://t/new'' (IdList []) ''video'' 9 1)) ''https://t/new''
     = Some ([], ''video'')"
proof -
  have h1: "loads_demo ''[]'' = Some (JArray [])" by (simp add: loads_demo_def)
  have rid: "snd (save_file_to_cache db_demo ''https://t/new'' (IdList []) ''video'' 9 1) = Some 8"
    by (simp add: save_file_to_cache_def db_demo_def select_by_url_def Let_def)
  have sv: "save_file_to_cache db_demo ''https://t/new'' (IdList []) ''video'' 9 1 =
     (fst (save_file_to_cache db_demo ''https://t/new'' (IdList []) ''video'' 9 1),
      snd (save_file_to_cache db_demo ''https://t/new'' (IdList []) ''video'' 9 1))"
    by (rule surjective_pairing)
  from cache_empty_list [where loads = loads_demo, OF h1 sv]
  have "get_cached_file loads_demo
     (fst (save_file_to_cache db_demo ''https://t/new'' (IdList []) ''video'' 9 1)) ''https://t/new''
     = Some ([], ''video'')"
    by blast
  with h1 rid show ?thesis by blast
qed

subsection \<open>The registry of downloads in flight\<close>

text \<open>
  The leader of \<open>download_and_cache_inline\<close> removes its entry on the way out.
\<close>

lemma inline_entry_removed:
  "inline_enter st url = (st1, Leader f) \<Longrightarrow>
   active_downloads (inline_return st1 url f r) url = None"
  by (auto simp: inline_enter_def inline_return_def inline_finally_def set_result_if_not_done_def
        future_done_def new_future_def Let_def split: option.splits future_state.splits)

text \<open>
  Claim C3. The claim says that the entry of a url is removed once its promise is
  fulfilled. A request through \<open>process_single_url\<close> installs the entry and fulfils
  the future, and the entry is still in the registry afterwards.
\<close>

theorem message_entry_not_removed:
  "message_enter empty_registry ''https://tiktok.com/@u/video/1'' =
     (empty_registry\<lparr>futures := (futures empty_registry)(0 := Some Pending),
        active_downloads := (active_downloads empty_registry)(''https://tiktok.com/@u/video/1'' := Some 0),
        next_future := 1\<rparr>, Leader 0) \<and>
   futures (message_return (fst (message_enter empty_registry ''https://tiktok.com/@u/video/1''))
              ''https://tiktok.com/@u/video/1'' 0 (Some [''vid-1''], Some ''video'')) 0
     = Some (Fulfilled (Some [''vid-1''], Some ''video'')) \<and>
   active_downloads (message_return (fst (message_enter empty_registry ''https://tiktok.com/@u/video/1''))
              ''https://tiktok.com/@u/video/1'' 0 (Some [''vid-1''], Some ''video''))
     ''https://tiktok.com/@u/video/1'' = Some 0"
  by (simp add: message_enter_def message_return_def set_result_if_not_done_def future_done_def
        new_future_def empty_registry_def Let_def)

subsection \<open>Parsing and encoding of urls\<close>

lemma dropWhile_id: "xs = [] \<or> \<not> P (hd xs) \<Longrightarrow> dropWhile P xs = xs"
  by (cases xs) auto

lemma no_space_strip: "no_space s \<Longrightarrow> strip s = s"
proof -
  assume a: "no_space s"
  then have l: "lstrip s = s"
    by (cases s) (auto simp: lstrip_def no_space_def)
  from a have "dropWhile is_pyspace (rev s) = rev s"
    by (intro dropWhile_id) (cases s rule: rev_cases, auto simp: no_space_def)
  then show ?thesis by (simp add: strip_def rstrip_def l)
qed

lemma no_space_rstrip: "no_space s \<Longrightarrow> rstrip s = s"
proof -
  assume a: "no_space s"
  then have "dropWhile is_pyspace (rev s) = rev s"
    by (intro dropWhile_id) (cases s rule: rev_cases, auto simp: no_space_def)
  then show ?thesis by (simp add: rstrip_def)
qed

lemma no_space_filter:
  "no_space s \<Longrightarrow> filter (\<lambda>c. c \<notin> set [CHR 0x09, CHR 0x0D, CHR 0x0A]) s = s"
  by (induction s) (auto simp: no_space_def is_pyspace_def)

lemma alpha_above_32: "is_ascii_alpha c \<Longrightarrow> \<not> (of_char c :: nat) \<le> 32"
  by (auto simp: is_ascii_alpha_def)

lemma alpha_scheme_char: "is_ascii_alpha c \<Longrightarrow> c \<in> set scheme_chars"
  by (auto simp: is_ascii_alpha_def scheme_chars_def)

lemma scheme_char_no_space: "c \<in> set scheme_chars \<Longrightarrow> \<not> is_pyspace c"
  by (auto simp: scheme_chars_def is_pyspace_def)

lemma scheme_char_not_colon: "c \<in> set scheme_chars \<Longrightarrow> c \<noteq> CHR '':''"
  by (auto simp: scheme_chars_def)

lemma scheme_chars_lower_all:
  "list_all (\<lambda>c. lower_char c \<in> set scheme_chars \<and> lower_char (lower_char c) = lower_char c \<and>
                 (is_ascii_alpha c \<longrightarrow> is_ascii_alpha (lower_char c))) scheme_chars"
  by code_simp

lemma lower_scheme_char:
  "c \<in> set scheme_chars \<Longrightarrow> lower_char c \<in> set scheme_chars"
  using scheme_chars_lower_all by (simp add: list_all_iff)

lemma lower_lower_scheme_char:
  "c \<in> set scheme_chars \<Longrightarrow> lower_char (lower_char c) = lower_char c"
  using scheme_chars_lower_all by (simp add: list_all_iff)

lemma lower_alpha:
  "is_ascii_alpha c \<Longrightarrow> is_ascii_alpha (lower_char c)"
  using scheme_chars_lower_all alpha_scheme_char [of c] by (simp add: list_all_iff)

lemma takeWhile_none: "ys = [] \<or> \<not> P (hd ys) \<Longrightarrow> takeWhile P ys = []"
  by (cases ys) auto

lemma takeWhile_stop:
  "list_all P xs \<Longrightarrow> ys = [] \<or> \<not> P (hd ys) \<Longrightarrow> takeWhile P (xs @ ys) = xs"
  by (induction xs) (simp_all add: takeWhile_none)

lemma dropWhile_stop:
  "list_all P xs \<Longrightarrow> ys = [] \<or> \<not> P (hd ys) \<Longrightarrow> dropWhile P (xs @ ys) = ys"
  by (induction xs) (simp_all add: dropWhile_id)

lemma split_first_None: "c \<notin> set s \<Longrightarrow> split_first c s = None"
  by (simp add: split_first_def)

lemma split_first_at:
  "c \<notin> set a \<Longrightarrow> split_first c (a @ c # b) = Some (a, b)"
proof -
  assume a: "c \<notin> set a"
  then have la: "list_all (\<lambda>x. x \<noteq> c) a" by (auto simp: list_all_iff)
  have "takeWhile (\<lambda>x. x \<noteq> c) (a @ c # b) = a"
    using la by (rule takeWhile_stop) simp
  moreover have "dropWhile (\<lambda>x. x \<noteq> c) (a @ c # b) = c # b"
    using la by (rule dropWhile_stop) simp
  ultimately show ?thesis by (simp add: split_first_def)
qed

lemma valid_scheme_no_colon: "valid_scheme s \<Longrightarrow> CHR '':'' \<notin> set s"
  by (auto simp: valid_scheme_def list_all_iff dest: scheme_char_not_colon)

lemma split_scheme_valid:
  assumes "valid_scheme s"
  shows "split_scheme (s @ CHR '':'' # rest) = (lower s, rest)"
proof -
  have la: "list_all (\<lambda>c. c \<noteq> CHR '':'') s"
    using valid_scheme_no_colon [OF assms] by (auto simp: list_all_iff)
  have tw: "takeWhile (\<lambda>c. c \<noteq> CHR '':'') (s @ CHR '':'' # rest) = s"
    using la by (rule takeWhile_stop) simp
  have hd: "hd (s @ CHR '':'' # rest) = hd s"
    using assms by (simp add: valid_scheme_def)
  show ?thesis
    using assms unfolding split_scheme_def tw hd
    by (simp add: valid_scheme_def Let_def)
qed

lemma split_scheme_slash: "split_scheme (CHR ''/'' # rest) = ([], CHR ''/'' # rest)"
  by (simp add: split_scheme_def Let_def is_ascii_alpha_def)

lemma c0_strip_id:
  "s = [] \<or> \<not> (of_char (hd s) :: nat) \<le> 32 \<Longrightarrow> dropWhile (\<lambda>c. (of_char c :: nat) \<le> 32) s = s"
  by (rule dropWhile_id)

lemma urlsplit_after_scheme:
  assumes nl: "list_all (\<lambda>c. c \<notin> set ''/?#'') nl"
    and ok: "netloc_ok ip_ok nl"
    and p: "p = [] \<or> hd p = CHR ''/''" "CHR ''?'' \<notin> set p" "CHR ''#'' \<notin> set p"
    and t: "t = [] \<or> hd t = CHR ''?''" "CHR ''#'' \<notin> set t"
    and first: "\<not> (of_char (hd (pre @ ''//'')) :: nat) \<le> 32"
    and ns: "no_space (pre @ ''//'' @ nl @ p @ t)"
    and sch: "split_scheme (pre @ ''//'' @ nl @ p @ t) = (sch, ''//'' @ nl @ p @ t)"
  shows "urlsplit ip_ok (pre @ ''//'' @ nl @ p @ t) = Some (sch, nl, p, drop 1 t, [])"
proof -
  let ?u = "pre @ ''//'' @ nl @ p @ t"
  have hd: "hd ?u = hd (pre @ ''//'')" by (cases pre) simp_all
  have u1: "dropWhile (\<lambda>c. (of_char c :: nat) \<le> 32) ?u = ?u"
    using first hd by (intro c0_strip_id) simp
  have u2: "filter (\<lambda>c. c \<notin> set [CHR 0x09, CHR 0x0D, CHR 0x0A]) ?u = ?u"
    using ns by (rule no_space_filter)
  have stop: "p @ t = [] \<or> \<not> (hd (p @ t) \<notin> set ''/?#'')"
    using p(1) t(1) by (cases p) auto
  have sn: "splitnetloc (nl @ p @ t) = (nl, p @ t)"
    unfolding splitnetloc_def using takeWhile_stop [OF nl stop] dropWhile_stop [OF nl stop] by simp
  have fr: "split_first CHR ''#'' (p @ t) = None"
    using p(3) t(2) by (intro split_first_None) simp
  have q: "(case split_first CHR ''?'' (p @ t) of Some (a, b) \<Rightarrow> (a, b) | None \<Rightarrow> (p @ t, [])) = (p, drop 1 t)"
  proof (cases t)
    case Nil
    then show ?thesis using p(2) by (simp add: split_first_None)
  next
    case (Cons c t')
    with t(1) have "t = CHR ''?'' # t'" by simp
    then show ?thesis using split_first_at [OF p(2), of t'] by simp
  qed
  show ?thesis
    unfolding urlsplit_def u1 u2 Let_def sch
    using ok by (simp add: sn fr q)
qed

lemma urlsplit_build_scheme:
  assumes "valid_scheme s"
    and "list_all (\<lambda>c. c \<notin> set ''/?#'') nl" and "netloc_ok ip_ok nl"
    and "p = [] \<or> hd p = CHR ''/''" "CHR ''?'' \<notin> set p" "CHR ''#'' \<notin> set p"
    and "t = [] \<or> hd t = CHR ''?''" "CHR ''#'' \<notin> set t"
    and "no_space (nl @ p @ t)"
  shows "urlsplit ip_ok (s @ ''://'' @ nl @ p @ t) = Some (lower s, nl, p, drop 1 t, [])"
proof -
  have first: "\<not> (of_char (hd ((s @ '':'') @ ''//'')) :: nat) \<le> 32"
    using assms(1) by (cases s) (auto simp: valid_scheme_def dest: alpha_above_32)
  have s_ns: "no_space s"
    using assms(1) by (auto simp: valid_scheme_def no_space_def list_all_iff dest: scheme_char_no_space)
  have ns: "no_space ((s @ '':'') @ ''//'' @ nl @ p @ t)"
    using s_ns assms(9) by (simp add: no_space_def is_pyspace_def)
  have sch: "split_scheme ((s @ '':'') @ ''//'' @ nl @ p @ t) = (lower s, ''//'' @ nl @ p @ t)"
    using split_scheme_valid [OF assms(1), of "''//'' @ nl @ p @ t"] by simp
  from urlsplit_after_scheme [OF assms(2-8) first ns sch] show ?thesis by simp
qed

lemma urlsplit_build_noscheme:
  assumes "list_all (\<lambda>c. c \<notin> set ''/?#'') nl" and "netloc_ok ip_ok nl"
    and "p = [] \<or> hd p = CHR ''/''" "CHR ''?'' \<notin> set p" "CHR ''#'' \<notin> set p"
    and "t = [] \<or> hd t = CHR ''?''" "CHR ''#'' \<notin> set t"
    and "no_space (nl @ p @ t)"
  shows "urlsplit ip_ok (''//'' @ nl @ p @ t) = Some ([], nl, p, drop 1 t, [])"
proof -
  have first: "\<not> (of_char (hd ([] @ ''//'')) :: nat) \<le> 32" by simp
  have ns: "no_space ([] @ ''//'' @ nl @ p @ t)"
    using assms(8) by (simp add: no_space_def is_pyspace_def)
  have sch: "split_scheme ([] @ ''//'' @ nl @ p @ t) = ([], ''//'' @ nl @ p @ t)"
    using split_scheme_slash [of "CHR ''/'' # nl @ p @ t"] by simp
  from urlsplit_after_scheme [OF assms(1-7) first ns sch] show ?thesis by simp
qed

subsection \<open>Decoded text can be encoded again\<close>

lemma utf8_encode_valid: "valid_cp c \<Longrightarrow> \<exists>bs. utf8_encode c = Some bs"
  by (auto simp: utf8_encode_def valid_cp_def)

lemma valid_two: "194 \<le> b \<Longrightarrow> b \<le> 223 \<Longrightarrow> cont c1 \<Longrightarrow> valid_cp ((b - 192) * 64 + (c1 - 128))"
  unfolding valid_cp_def cont_def by linarith

lemma valid_three:
  assumes "224 \<le> b" "b \<le> 239" "second_ok b c1" "cont c2"
  shows "valid_cp ((b - 224) * 4096 + (c1 - 128) * 64 + (c2 - 128))"
proof (cases "b = 237")
  case True
  with assms have "c1 \<le> 159" "c2 \<le> 191"
    by (auto simp: second_ok_def cont_def)
  with True have "(b - 224) * 4096 + (c1 - 128) * 64 + (c2 - 128) < 55296" by linarith
  then show ?thesis by (simp add: valid_cp_def)
next
  case False
  then consider "b \<le> 236" | "238 \<le> b" by linarith
  then show ?thesis
  proof cases
    case 1
    with assms have "c1 \<le> 191" "c2 \<le> 191"
      by (auto simp: second_ok_def cont_def split: if_splits)
    with 1 assms(1) have "(b - 224) * 4096 + (c1 - 128) * 64 + (c2 - 128) < 55296" by linarith
    then show ?thesis by (simp add: valid_cp_def)
  next
    case 2
    with assms have "c1 \<le> 191" "c2 \<le> 191"
      by (auto simp: second_ok_def cont_def split: if_splits)
    with 2 assms(2) have "57344 \<le> (b - 224) * 4096 + (c1 - 128) * 64 + (c2 - 128)"
      and "(b - 224) * 4096 + (c1 - 128) * 64 + (c2 - 128) < 1114112" by linarith+
    then show ?thesis by (simp add: valid_cp_def)
  qed
qed

lemma valid_four:
  assumes "240 \<le> b" "b \<le> 244" "second_ok b c1" "cont c2" "cont c3"
  shows "valid_cp ((b - 240) * 262144 + (c1 - 128) * 4096 + (c2 - 128) * 64 + (c3 - 128))"
proof -
  have c: "c2 \<le> 191" "c3 \<le> 191" using assms by (auto simp: cont_def)
  show ?thesis
  proof (cases "b = 240")
    case True
    with assms have "144 \<le> c1" "c1 \<le> 191" by (auto simp: second_ok_def)
    with True c have "65536 \<le> (b - 240) * 262144 + (c1 - 128) * 4096 + (c2 - 128) * 64 + (c3 - 128)"
      and "(b - 240) * 262144 + (c1 - 128) * 4096 + (c2 - 128) * 64 + (c3 - 128) < 1114112" by linarith+
    then show ?thesis by (simp add: valid_cp_def)
  next
    case False
    show ?thesis
    proof (cases "b = 244")
      case True
      with assms have "128 \<le> c1" "c1 \<le> 143" by (auto simp: second_ok_def)
      with True c have "65536 \<le> (b - 240) * 262144 + (c1 - 128) * 4096 + (c2 - 128) * 64 + (c3 - 128)"
        and "(b - 240) * 262144 + (c1 - 128) * 4096 + (c2 - 128) * 64 + (c3 - 128) < 1114112" by linarith+
      then show ?thesis by (simp add: valid_cp_def)
    next
      case b: False
      with False assms have "241 \<le> b" "b \<le> 243" "c1 \<le> 191"
        by (auto simp: second_ok_def cont_def split: if_splits)
      with c have "262144 \<le> (b - 240) * 262144 + (c1 - 128) * 4096 + (c2 - 128) * 64 + (c3 - 128)"
        and "(b - 240) * 262144 + (c1 - 128) * 4096 + (c2 - 128) * 64 + (c3 - 128) < 1114112" by linarith+
      then show ?thesis by (simp add: valid_cp_def)
    qed
  qed
qed

lemma valid_small: "b < 128 \<Longrightarrow> valid_cp b" and valid_replacement: "valid_cp 65533"
  by (simp_all add: valid_cp_def)

lemma utf8_decode_valid: "list_all valid_cp (utf8_decode bs)"
proof (induction bs rule: utf8_decode.induct)
  case 1
  then show ?case by simp
next
  case (2 b bs)
  then show ?case
    by (auto simp: valid_small valid_replacement valid_two valid_three valid_four
             split: list.splits)
qed

lemma char_valid: "valid_cp (of_char (c :: char))"
proof -
  have "(of_char c :: nat) < 256" by simp
  then show ?thesis unfolding valid_cp_def by linarith
qed

lemma unquote_runs_valid: "list_all valid_cp (unquote_runs s)"
  by (induction s rule: unquote_runs.induct) (simp_all add: utf8_decode_valid char_valid)

lemma unquote_valid: "list_all valid_cp (unquote s)"
  using unquote_runs_valid [of s] by (auto simp: unquote_def list_all_iff char_valid)

lemma quote_plus_total: "list_all valid_cp v \<Longrightarrow> \<exists>e. quote_plus v = Some e"
proof (induction v)
  case Nil
  then show ?case by simp
next
  case (Cons c v)
  then obtain e where "quote_plus v = Some e" by auto
  moreover from Cons.prems obtain bs where "utf8_encode c = Some bs"
    using utf8_encode_valid [of c] by auto
  ultimately show ?case by simp
qed

lemma encode_values_total:
  "list_all (list_all valid_cp) vs \<Longrightarrow> \<exists>l. encode_values k vs = Some l"
proof (induction vs)
  case Nil
  then show ?case by simp
next
  case (Cons v vs)
  then obtain l where "encode_values k vs = Some l" by auto
  moreover from Cons.prems obtain e where "quote_plus v = Some e"
    using quote_plus_total [of v] by auto
  ultimately show ?case by simp
qed

lemma encode_items_total: "valid_dict d \<Longrightarrow> \<exists>l. encode_items d = Some l"
proof (induction d)
  case Nil
  then show ?case by simp
next
  case (Cons a d)
  obtain k vs where a: "a = (k, vs)" by (cases a)
  from Cons obtain l2 where "encode_items d = Some l2" by (auto simp: valid_dict_def)
  moreover from Cons.prems a obtain qk where "quote_plus k = Some qk"
    using quote_plus_total [of k] by (auto simp: valid_dict_def)
  moreover from Cons.prems a obtain l where "encode_values qk vs = Some l"
    using encode_values_total [of vs qk] by (auto simp: valid_dict_def)
  ultimately show ?case by (simp add: a)
qed

lemma urlencode_total: "valid_dict d \<Longrightarrow> \<exists>nq. urlencode d = Some nq"
  using encode_items_total [of d] by (auto simp: urlencode_def)

lemma dict_append_valid:
  "valid_dict d \<Longrightarrow> list_all valid_cp k \<Longrightarrow> list_all valid_cp v \<Longrightarrow> valid_dict (dict_append d k v)"
  by (induction d k v rule: dict_append.induct) (auto simp: valid_dict_def)

lemma dict_append_keys:
  "map fst (dict_append d k v) = (if k \<in> set (map fst d) then map fst d else map fst d @ [k])"
  by (induction d k v rule: dict_append.induct) auto

lemma fold_dict_valid:
  "valid_dict d \<Longrightarrow> list_all (\<lambda>(k, v). list_all valid_cp k \<and> list_all valid_cp v) ps \<Longrightarrow>
   valid_dict (fold (\<lambda>(name, val) d. dict_append d name val) ps d)"
  by (induction ps arbitrary: d) (auto simp: dict_append_valid)

lemma fold_dict_distinct:
  "distinct (map fst d) \<Longrightarrow> distinct (map fst (fold (\<lambda>(name, val) d. dict_append d name val) ps d))"
  by (induction ps arbitrary: d) (auto simp: dict_append_keys)

lemma parse_field_valid:
  "list_all (\<lambda>(k, v). list_all valid_cp k \<and> list_all valid_cp v) (parse_field f)"
  by (auto simp: parse_field_def unquote_valid split: option.splits)

lemma parse_qsl_valid:
  "list_all (\<lambda>(k, v). list_all valid_cp k \<and> list_all valid_cp v) (parse_qsl q)"
  unfolding parse_qsl_def list_all_iff
  using parse_field_valid by (auto simp: list_all_iff)

lemma parse_qs_valid: "valid_dict (parse_qs q)"
  unfolding parse_qs_def by (intro fold_dict_valid parse_qsl_valid) (simp add: valid_dict_def)

lemma parse_qs_distinct: "distinct (map fst (parse_qs q))"
  unfolding parse_qs_def by (intro fold_dict_distinct) simp

lemma valid_dict_filter: "valid_dict d \<Longrightarrow> valid_dict (filter P d)"
  by (auto simp: valid_dict_def list_all_iff)

lemma whitelisted_encodes: "\<exists>nq. urlencode (whitelisted wl q) = Some nq"
  unfolding whitelisted_def by (intro urlencode_total valid_dict_filter parse_qs_valid)

lemma map_of_as_filter:
  "distinct (map fst d) \<Longrightarrow>
   (case map_of d k of Some v \<Rightarrow> [(k, v)] | None \<Rightarrow> []) = filter (\<lambda>(k', v). k' \<in> set [k]) d"
proof (induction d)
  case Nil
  then show ?case by simp
next
  case (Cons a d)
  obtain k' v' where a: "a = (k', v')" by (cases a)
  show ?case
  proof (cases "k' = k")
    case True
    with Cons.prems a have "k \<notin> fst ` set d" by auto
    then have "filter (\<lambda>(k', v). k' \<in> set [k]) d = []"
      by (force simp: filter_empty_conv)
    with True a show ?thesis by simp
  next
    case False
    with Cons a show ?thesis by simp
  qed
qed

lemma rstrip_char_take: "rstrip_char c s = take (length (rstrip_char c s)) s"
proof -
  have "dropWhile (\<lambda>x. x = c) (rev s) = drop (length (takeWhile (\<lambda>x. x = c) (rev s))) (rev s)"
    by (rule dropWhile_eq_drop)
  then have "rstrip_char c s = take (length s - length (takeWhile (\<lambda>x. x = c) (rev s))) s"
    by (simp add: rstrip_char_def rev_drop)
  then show ?thesis by (metis length_take min.absorb2 nat_le_linear take_all)
qed

lemma rstrip_char_hd:
  assumes "p = [] \<or> hd p = c"
  shows "rstrip_char c p = [] \<or> hd (rstrip_char c p) = c"
proof (cases "rstrip_char c p = []")
  case True
  then show ?thesis by simp
next
  case False
  then have n: "0 < length (rstrip_char c p)" by simp
  from False have "p \<noteq> []" by (auto simp: rstrip_char_def)
  with assms have "hd p = c" by simp
  moreover have "hd (take (length (rstrip_char c p)) p) = hd p"
    using n by (simp add: hd_take)
  ultimately show ?thesis using rstrip_char_take [of c p] by simp
qed

lemma rstrip_char_subset: "set (rstrip_char c s) \<subseteq> set s"
  using rstrip_char_take [of c s] by (metis set_take_subset)

lemma lower_Nil_iff: "lower s = [] \<longleftrightarrow> s = []"
  by (simp add: lower_def)

lemma urlunparse_plain:
  assumes "sch \<noteq> []" "nl \<noteq> []" "p = [] \<or> hd p = CHR ''/''"
  shows "urlunparse (sch, nl, p, [], nq, []) = sch @ ''://'' @ nl @ p @ query_suffix nq"
proof -
  have "\<not> (p \<noteq> [] \<and> take 1 p \<noteq> ''/'')"
    using assms(3) by (cases p) auto
  then show ?thesis
    using assms(1,2) by (simp add: urlunparse_def urlunsplit_def query_suffix_def Let_def)
qed

lemma valid_host_netloc_ok: "valid_host h \<Longrightarrow> netloc_ok ip_ok h"
  by (auto simp: valid_host_def netloc_ok_def list_all_iff Let_def)

lemma whitelisted_Nil: "whitelisted [] q = []"
  by (simp add: whitelisted_def)

lemma urlencode_Nil: "urlencode [] = Some []"
  by (simp add: urlencode_def)

lemma urlparse_built:
  assumes s: "valid_scheme s" and h: "valid_host h" and p: "valid_path p"
    and t: "t = [] \<or> hd t = CHR ''?''" "valid_query t"
  shows "urlparse ip_ok (s @ ''://'' @ h @ p @ t) =
           Some \<lparr>scheme = lower s, netloc = h, path = p, params = [], query = drop 1 t, fragment = []\<rparr>"
proof -
  have nl: "list_all (\<lambda>c. c \<notin> set ''/?#'') h"
    using h by (auto simp: valid_host_def list_all_iff)
  have p': "p = [] \<or> hd p = CHR ''/''" "CHR ''?'' \<notin> set p" "CHR ''#'' \<notin> set p" "CHR '';'' \<notin> set p"
    using p by (auto simp: valid_path_def list_all_iff)
  have ns: "no_space (h @ p @ t)"
    using h p t(2) by (simp add: valid_host_def valid_path_def valid_query_def no_space_def)
  have "urlsplit ip_ok (s @ ''://'' @ h @ p @ t) = Some (lower s, h, p, drop 1 t, [])"
    using s nl valid_host_netloc_ok [OF h] p'(1-3) t(1) _ ns
    by (rule urlsplit_build_scheme) (use t(2) in \<open>simp add: valid_query_def\<close>)
  then show ?thesis using p'(4) by (simp add: urlparse_def)
qed

lemma normalize_url_closed:
  assumes s: "valid_scheme s" and h: "valid_host h" and wl: "whitelist h = Some wl"
    and p: "valid_path p" and t: "t = [] \<or> hd t = CHR ''?''" "valid_query t"
    and enc: "urlencode (whitelisted wl (drop 1 t)) = Some nq"
  shows "normalize_url ip_ok (s @ ''://'' @ h @ p @ t) =
           lower s @ ''://'' @ h @ rstrip_char CHR ''/'' p @ query_suffix nq"
proof -
  let ?u = "s @ ''://'' @ h @ p @ t"
  have s_ns: "no_space s"
    using s by (auto simp: valid_scheme_def no_space_def list_all_iff dest: scheme_char_no_space)
  have "no_space ?u"
    using s_ns h p t(2)
    by (simp add: valid_host_def valid_path_def valid_query_def no_space_def is_pyspace_def)
  then have strip: "strip ?u = ?u" by (rule no_space_strip)
  have ne: "?u \<noteq> []" using s by (simp add: valid_scheme_def)
  note parsed = urlparse_built [OF s h p t, of ip_ok]
  have sch: "lower s \<noteq> []" using s by (simp add: valid_scheme_def lower_Nil_iff)
  have hne: "h \<noteq> []" using h by (simp add: valid_host_def)
  have p': "rstrip_char CHR ''/'' p = [] \<or> hd (rstrip_char CHR ''/'' p) = CHR ''/''"
    using p by (intro rstrip_char_hd) (simp add: valid_path_def)
  note unparse = urlunparse_plain [OF sch hne p']
  have img: "(case map_of (parse_qs q) (ustr_of ''img_index'') of
                None \<Rightarrow> [] | Some v \<Rightarrow> [(ustr_of ''img_index'', v)]) =
             whitelisted [ustr_of ''img_index''] q" for q
    unfolding whitelisted_def by (rule map_of_as_filter) (rule parse_qs_distinct)
  have yt: "filter (\<lambda>(k, v). k \<in> set [ustr_of ''v'', ustr_of ''t'']) (parse_qs q) =
             whitelisted [ustr_of ''v'', ustr_of ''t''] q" for q
    by (simp add: whitelisted_def)
  consider (ig) "contains ''instagram.com'' h \<or> contains ''facebook.com'' h" "wl = [ustr_of ''img_index'']"
    | (tt) "\<not> (contains ''instagram.com'' h \<or> contains ''facebook.com'' h)" "contains ''tiktok.com'' h" "wl = []"
    | (yt) "\<not> (contains ''instagram.com'' h \<or> contains ''facebook.com'' h)" "\<not> contains ''tiktok.com'' h"
           "contains ''youtube.com'' h \<or> contains ''youtu.be'' h" "wl = [ustr_of ''v'', ustr_of ''t'']"
    | (sc) "\<not> (contains ''instagram.com'' h \<or> contains ''facebook.com'' h)" "\<not> contains ''tiktok.com'' h"
           "\<not> (contains ''youtube.com'' h \<or> contains ''youtu.be'' h)" "contains ''soundcloud.com'' h" "wl = []"
    using wl by (auto simp: whitelist_def split: if_splits)
  then show ?thesis
  proof cases
    case ig
    with enc have "urlencode (whitelisted [ustr_of ''img_index''] (drop 1 t)) = Some nq" by simp
    then show ?thesis
      unfolding normalize_url_def strip parsed Let_def
      using ne ig(1) by (simp add: unparse img del: contains.simps)
  next
    case tt
    with enc have "nq = []" by (simp add: whitelisted_Nil urlencode_Nil)
    then show ?thesis
      unfolding normalize_url_def strip parsed Let_def
      using ne tt by (simp add: unparse query_suffix_def del: contains.simps)
  next
    case yt
    with enc have "urlencode (whitelisted [ustr_of ''v'', ustr_of ''t''] (drop 1 t)) = Some nq" by simp
    then show ?thesis
      unfolding normalize_url_def strip parsed Let_def
      using ne yt(1,2,3) by (simp add: unparse whitelisted_def del: contains.simps)
  next
    case sc
    with enc have "nq = []" by (simp add: whitelisted_Nil urlencode_Nil)
    then show ?thesis
      unfolding normalize_url_def strip parsed Let_def
      using ne sc by (simp add: unparse query_suffix_def del: contains.simps)
  qed
qed

lemma parse_qs_Nil: "parse_qs [] = []"
  by code_simp

lemma whitelisted_empty_query: "whitelisted wl [] = []"
  by (simp add: whitelisted_def parse_qs_Nil)

subsection \<open>normalize_url: an input without a scheme\<close>

text \<open>
  Claim C1 fails on the code. The claim says that an input without a scheme comes back with
  \<open>https://\<close> in front and has the canonical string of its variants. The function has no
  such step: for \<open>instagram.com/p/ABC/?igsh=x\<close> the parser finds no host (the whole input is
  a path), no platform is recognised and the input is returned as it is, trailing slash and
  tracking parameter included, while the same url with its scheme loses both.
\<close>

theorem normalize_url_schemeless_unchanged:
  "normalize_url no_ip ''instagram.com/p/ABC/?igsh=x'' = ''instagram.com/p/ABC/?igsh=x'' \<and>
   normalize_url no_ip ''https://instagram.com/p/ABC/?igsh=x'' = ''https://instagram.com/p/ABC''"
  by code_simp

subsection \<open>normalize_url: urls with a scheme and a platform host\<close>

text \<open>
  For a url with a scheme, a host in which the code finds a platform domain, a path and a
  query, the result is the lower-cased scheme, the host as written, the path without its
  trailing slashes, and the parameters of the platform's whitelist (\<open>img_index\<close>; \<open>v\<close> and
  \<open>t\<close>; none) encoded again. So two such urls with the same host that differ in the
  letter-case of the scheme, in trailing slashes of the path and in parameters outside the
  whitelist have the same result.
\<close>

lemma normalize_url_variants:
  assumes s: "valid_scheme s1" "valid_scheme s2" "lower s1 = lower s2"
    and h: "valid_host h" "whitelist h = Some wl"
    and p: "valid_path p1" "valid_path p2" "rstrip_char CHR ''/'' p1 = rstrip_char CHR ''/'' p2"
    and q: "valid_query q1" "valid_query q2" "whitelisted wl q1 = whitelisted wl q2"
  shows "normalize_url ip_ok (s1 @ ''://'' @ h @ p1 @ ''?'' @ q1) =
           normalize_url ip_ok (s2 @ ''://'' @ h @ p2 @ ''?'' @ q2) \<and>
         (\<exists>nq. urlencode (whitelisted wl q1) = Some nq \<and>
            normalize_url ip_ok (s1 @ ''://'' @ h @ p1 @ ''?'' @ q1) =
              lower s1 @ ''://'' @ h @ rstrip_char CHR ''/'' p1 @ query_suffix nq) \<and>
         (whitelisted wl q1 = [] \<longrightarrow>
            normalize_url ip_ok (s1 @ ''://'' @ h @ p1 @ ''?'' @ q1) =
              normalize_url ip_ok (s2 @ ''://'' @ h @ p2))"
proof -
  obtain nq where nq: "urlencode (whitelisted wl q1) = Some nq"
    using whitelisted_encodes by blast
  have vq: "valid_query (''?'' @ q)" if "valid_query q" for q
    using that by (simp add: valid_query_def no_space_def is_pyspace_def)
  have a: "normalize_url ip_ok (s1 @ ''://'' @ h @ p1 @ ''?'' @ q1) =
             lower s1 @ ''://'' @ h @ rstrip_char CHR ''/'' p1 @ query_suffix nq"
    using s(1) h p(1) _ vq [OF q(1)] by (rule normalize_url_closed) (simp_all add: nq)
  have b: "normalize_url ip_ok (s2 @ ''://'' @ h @ p2 @ ''?'' @ q2) =
             lower s2 @ ''://'' @ h @ rstrip_char CHR ''/'' p2 @ query_suffix nq"
    using s(2) h p(2) _ vq [OF q(2)] by (rule normalize_url_closed) (simp_all add: nq q(3) [symmetric])
  have e: "valid_query []" by (simp add: valid_query_def no_space_def)
  have "normalize_url ip_ok (s2 @ ''://'' @ h @ p2 @ []) =
             lower s2 @ ''://'' @ h @ rstrip_char CHR ''/'' p2 @ query_suffix []"
    using s(2) h p(2) _ e by (rule normalize_url_closed) (simp_all add: whitelisted_empty_query urlencode_Nil)
  then have c: "normalize_url ip_ok (s2 @ ''://'' @ h @ p2) = lower s2 @ ''://'' @ h @ rstrip_char CHR ''/'' p2"
    by (simp add: query_suffix_def)
  have d: "nq = []" if "whitelisted wl q1 = []"
    using nq that by (simp add: urlencode_Nil)
  show ?thesis
    using a b c d nq s(3) p(3) by (auto simp: query_suffix_def)
qed

lemma normalize_url_variants_example:
  "valid_scheme ''HTTPS'' \<and> valid_scheme ''https'' \<and> lower ''HTTPS'' = lower ''https'' \<and>
   valid_host ''www.instagram.com'' \<and> whitelist ''www.instagram.com'' = Some [ustr_of ''img_index''] \<and>
   valid_path ''/p/ABC/'' \<and> valid_path ''/p/ABC'' \<and>
   rstrip_char CHR ''/'' ''/p/ABC/'' = rstrip_char CHR ''/'' ''/p/ABC'' \<and>
   valid_query ''igsh=x&img_index=2'' \<and> valid_query ''img_index=2'' \<and>
   whitelisted [ustr_of ''img_index''] ''igsh=x&img_index=2'' = whitelisted [ustr_of ''img_index''] ''img_index=2'' \<and>
   normalize_url no_ip ''HTTPS://www.instagram.com/p/ABC/?igsh=x&img_index=2'' =
     normalize_url no_ip ''https://www.instagram.com/p/ABC?img_index=2''"
proof -
  have 1: "valid_scheme ''HTTPS''" by code_simp
  have 2: "valid_scheme ''https''" by code_simp
  have 3: "lower ''HTTPS'' = lower ''https''" by code_simp
  have 4: "valid_host ''www.instagram.com''" by code_simp
  have 5: "whitelist ''www.instagram.com'' = Some [ustr_of ''img_index'']" by code_simp
  have 6: "valid_path ''/p/ABC/''" by code_simp
  have 7: "valid_path ''/p/ABC''" by code_simp
  have 8: "rstrip_char CHR ''/'' ''/p/ABC/'' = rstrip_char CHR ''/'' ''/p/ABC''" by code_simp
  have 9: "valid_query ''igsh=x&img_index=2''" by code_simp
  have 10: "valid_query ''img_index=2''" by code_simp
  have 11: "whitelisted [ustr_of ''img_index''] ''igsh=x&img_index=2'' =
            whitelisted [ustr_of ''img_index''] ''img_index=2''" by code_simp
  from normalize_url_variants [OF 1 2 3 4 5 6 7 8 9 10 11, of no_ip]
  have "normalize_url no_ip (''HTTPS'' @ ''://'' @ ''www.instagram.com'' @ ''/p/ABC/'' @ ''?'' @ ''igsh=x&img_index=2'') =
        normalize_url no_ip (''https'' @ ''://'' @ ''www.instagram.com'' @ ''/p/ABC'' @ ''?'' @ ''img_index=2'')"
    by (rule conjunct1)
  then show ?thesis using 1 2 3 4 5 6 7 8 9 10 11 by simp
qed

subsection \<open>normalize_url: applying it twice\<close>

lemma hex_upper_table:
  "list_all (\<lambda>n. is_hex (hex_upper n) \<and> hex_val (hex_upper n) = n \<and> hex_upper n \<in> set always_safe) [0..<16]"
  by code_simp

lemma hex_upper_props:
  assumes "n < 16"
  shows "is_hex (hex_upper n)" "hex_val (hex_upper n) = n" "hex_upper n \<in> set always_safe"
  using hex_upper_table assms by (auto simp: list_all_iff)

lemma quoted_chars_table:
  "list_all (\<lambda>c. is_ascii c \<and> \<not> is_pyspace c \<and> c \<notin> set ''&=#;?/'') (always_safe @ ''+%'')"
  by code_simp

lemma always_safe_table:
  "list_all (\<lambda>c. c \<noteq> CHR ''%'' \<and> c \<noteq> CHR ''+'') always_safe"
  by code_simp

lemma unquote_to_bytes_plain:
  "p \<noteq> CHR ''%'' \<Longrightarrow> unquote_to_bytes (p # rest) = of_char p # unquote_to_bytes rest"
proof (cases rest)
  case Nil
  then show ?thesis by simp
next
  case (Cons a r)
  then show "p \<noteq> CHR ''%'' \<Longrightarrow> ?thesis" by (cases r) simp_all
qed

lemma quote_byte_roundtrip:
  assumes "b < 256"
  shows "unquote_to_bytes (plus_to_space (quote_byte b @ rest)) = b # unquote_to_bytes (plus_to_space rest)"
proof (cases "char_of b \<in> set always_safe")
  case True
  then have "char_of b \<noteq> CHR ''%''" "char_of b \<noteq> CHR ''+''"
    using always_safe_table by (auto simp: list_all_iff)
  with True assms show ?thesis
    by (simp add: quote_byte_def plus_to_space_def unquote_to_bytes_plain)
next
  case False
  show ?thesis
  proof (cases "b = 32")
    case True
    with False show ?thesis
      by (simp add: quote_byte_def plus_to_space_def unquote_to_bytes_plain)
  next
    case b: False
    have d: "b div 16 < 16" "b mod 16 < 16" using assms by simp_all
    have ne: "hex_upper (b div 16) \<noteq> CHR ''+''" "hex_upper (b mod 16) \<noteq> CHR ''+''"
      using hex_upper_props(3) [OF d(1)] hex_upper_props(3) [OF d(2)] always_safe_table
      by (auto simp: list_all_iff)
    show ?thesis
      using False b ne hex_upper_props(1,2) [OF d(1)] hex_upper_props(1,2) [OF d(2)]
      by (simp add: quote_byte_def plus_to_space_def)
  qed
qed

lemma quote_bytes_roundtrip:
  "list_all (\<lambda>b. b < 256) bs \<Longrightarrow>
   unquote_to_bytes (plus_to_space (concat (map quote_byte bs) @ rest)) =
     bs @ unquote_to_bytes (plus_to_space rest)"
proof (induction bs)
  case Nil
  then show ?case by simp
next
  case (Cons b bs)
  then have "b < 256" and bs: "list_all (\<lambda>b. b < 256) bs" by simp_all
  then show ?case
    using quote_byte_roundtrip [of b "concat (map quote_byte bs) @ rest"] Cons.IH [OF bs]
    by simp
qed

lemma quote_byte_chars:
  assumes "b < 256"
  shows "set (quote_byte b) \<subseteq> set (always_safe @ ''+%'')"
proof -
  have d: "b div 16 < 16" "b mod 16 < 16" using assms by simp_all
  show ?thesis
    using hex_upper_props(3) [OF d(1)] hex_upper_props(3) [OF d(2)]
    by (auto simp: quote_byte_def)
qed

lemma utf8_encode_bytes:
  "utf8_encode c = Some bs \<Longrightarrow> list_all (\<lambda>b. b < 256) bs"
  by (auto simp: utf8_encode_def split: if_splits)

lemma utf8_encode_nonempty:
  "utf8_encode c = Some bs \<Longrightarrow> bs \<noteq> []"
  by (auto simp: utf8_encode_def split: if_splits)

lemma quote_byte_nonempty: "quote_byte b \<noteq> []"
  by (simp add: quote_byte_def)

lemma utf8_roundtrip1:
  assumes "c < 128"
  shows "utf8_decode ([c] @ rest) = c # utf8_decode rest"
  using assms by simp

lemma utf8_roundtrip2:
  assumes "128 \<le> c" "c < 2048"
  shows "utf8_decode ([192 + c div 64, 128 + c mod 64] @ rest) = c # utf8_decode rest"
proof -
  have a: "2 \<le> c div 64" "c div 64 \<le> 31" using assms by simp_all
  have m: "c mod 64 < 64" by simp
  have e: "c div 64 * 64 + c mod 64 = c" by simp
  show ?thesis using a m e by (simp add: cont_def)
qed

lemma split3:
  fixes c :: nat
  shows "c = c div 4096 * 4096 + (c div 64) mod 64 * 64 + c mod 64"
proof -
  have a: "c = (c div 64) * 64 + c mod 64" by simp
  have b: "c div 64 = (c div 64 div 64) * 64 + (c div 64) mod 64" by simp
  have d: "c div 64 div 64 = c div 4096" by (simp add: div_mult2_eq [symmetric])
  from a b d show ?thesis by linarith
qed

lemma split4:
  fixes c :: nat
  shows "c = c div 262144 * 262144 + (c div 4096) mod 64 * 4096 + (c div 64) mod 64 * 64 + c mod 64"
proof -
  have a: "c = c div 4096 * 4096 + (c div 64) mod 64 * 64 + c mod 64" by (rule split3)
  have b: "c div 4096 = (c div 4096 div 64) * 64 + (c div 4096) mod 64" by simp
  have d: "c div 4096 div 64 = c div 262144" by (simp add: div_mult2_eq [symmetric])
  from a b d show ?thesis by linarith
qed

lemma utf8_decode3:
  assumes "h \<le> 15" "m < 64" "l < 64" "second_ok (224 + h) (128 + m)"
  shows "utf8_decode ((224 + h) # (128 + m) # (128 + l) # rest) =
           (h * 4096 + m * 64 + l) # utf8_decode rest"
  by (subst utf8_decode.simps(2)) (use assms in \<open>simp add: cont_def del: utf8_decode.simps\<close>)

lemma utf8_decode4:
  assumes "g \<le> 4" "h < 64" "m < 64" "l < 64" "second_ok (240 + g) (128 + h)"
  shows "utf8_decode ((240 + g) # (128 + h) # (128 + m) # (128 + l) # rest) =
           (g * 262144 + h * 4096 + m * 64 + l) # utf8_decode rest"
  by (subst utf8_decode.simps(2)) (use assms in \<open>simp add: cont_def del: utf8_decode.simps\<close>)

lemma utf8_roundtrip3:
  assumes "2048 \<le> c" "c < 65536" "\<not> (55296 \<le> c \<and> c \<le> 57343)"
  shows "utf8_decode ([224 + c div 4096, 128 + (c div 64) mod 64, 128 + c mod 64] @ rest) =
           c # utf8_decode rest"
proof -
  define h where "h = c div 4096"
  define m where "m = (c div 64) mod 64"
  define l where "l = c mod 64"
  have c: "c = h * 4096 + m * 64 + l"
    unfolding h_def m_def l_def by (rule split3)
  have ml: "m < 64" "l < 64"
    unfolding m_def l_def by simp_all
  have h: "h \<le> 15" using assms(2) c by linarith
  have s0: "h = 0 \<Longrightarrow> 32 \<le> m" using assms(1) c ml by linarith
  have s13: "h = 13 \<Longrightarrow> m < 32" using assms(2,3) c ml by linarith
  have so: "second_ok (224 + h) (128 + m)"
    using h ml s0 s13 by (auto simp: second_ok_def cont_def)
  have "utf8_decode ((224 + h) # (128 + m) # (128 + l) # rest) = (h * 4096 + m * 64 + l) # utf8_decode rest"
    using h ml so by (rule utf8_decode3)
  then show ?thesis unfolding c [symmetric] by (simp only: h_def m_def l_def append.simps)
qed

lemma utf8_roundtrip4:
  assumes "65536 \<le> c" "c < 1114112"
  shows "utf8_decode ([240 + c div 262144, 128 + (c div 4096) mod 64, 128 + (c div 64) mod 64,
                       128 + c mod 64] @ rest) = c # utf8_decode rest"
proof -
  define g where "g = c div 262144"
  define h where "h = (c div 4096) mod 64"
  define m where "m = (c div 64) mod 64"
  define l where "l = c mod 64"
  have c: "c = g * 262144 + h * 4096 + m * 64 + l"
    unfolding g_def h_def m_def l_def by (rule split4)
  have b: "h < 64" "m < 64" "l < 64"
    unfolding h_def m_def l_def by simp_all
  have g: "g \<le> 4" using assms(2) c by linarith
  have s0: "g = 0 \<Longrightarrow> 16 \<le> h" using assms(1) c b by linarith
  have s4: "g = 4 \<Longrightarrow> h < 16" using assms(2) c b by linarith
  have so: "second_ok (240 + g) (128 + h)"
    using g b s0 s4 by (auto simp: second_ok_def cont_def)
  have "utf8_decode ((240 + g) # (128 + h) # (128 + m) # (128 + l) # rest) =
          (g * 262144 + h * 4096 + m * 64 + l) # utf8_decode rest"
    using g b so by (rule utf8_decode4)
  then show ?thesis unfolding c [symmetric] by (simp only: g_def h_def m_def l_def append.simps)
qed

lemma utf8_roundtrip:
  assumes "utf8_encode c = Some bs"
  shows "utf8_decode (bs @ rest) = c # utf8_decode rest"
proof -
  consider (1) "c < 128" | (2) "128 \<le> c" "c < 2048"
    | (3) "2048 \<le> c" "c < 65536" "\<not> (55296 \<le> c \<and> c \<le> 57343)"
    | (4) "65536 \<le> c" "c < 1114112"
    | (5) "55296 \<le> c \<and> c \<le> 57343" | (6) "1114112 \<le> c"
    by linarith
  then show ?thesis
  proof cases
    case 1
    with assms have "bs = [c]" by (simp add: utf8_encode_def)
    then show ?thesis using utf8_roundtrip1 [OF 1] by simp
  next
    case 2
    with assms have "bs = [192 + c div 64, 128 + c mod 64]" by (simp add: utf8_encode_def)
    then show ?thesis using utf8_roundtrip2 [OF 2] by simp
  next
    case 3
    with assms have "bs = [224 + c div 4096, 128 + (c div 64) mod 64, 128 + c mod 64]"
      by (auto simp: utf8_encode_def)
    then show ?thesis using utf8_roundtrip3 [OF 3] by simp
  next
    case 4
    with assms have "bs = [240 + c div 262144, 128 + (c div 4096) mod 64, 128 + (c div 64) mod 64,
                       128 + c mod 64]"
      by (auto simp: utf8_encode_def)
    then show ?thesis using utf8_roundtrip4 [OF 4] by simp
  next
    case 5
    with assms show ?thesis by (auto simp: utf8_encode_def split: if_splits)
  next
    case 6
    with assms show ?thesis by (auto simp: utf8_encode_def split: if_splits)
  qed
qed

lemma quote_plus_bytes:
  "quote_plus v = Some e \<Longrightarrow>
   utf8_decode (unquote_to_bytes (plus_to_space e)) = v \<and> set e \<subseteq> set (always_safe @ ''+%'') \<and>
   (v \<noteq> [] \<longrightarrow> e \<noteq> [])"
proof (induction v arbitrary: e)
  case Nil
  then show ?case by (simp add: plus_to_space_def)
next
  case (Cons c cs)
  from Cons.prems obtain bs r where bs: "utf8_encode c = Some bs" and r: "quote_plus cs = Some r"
    and e: "e = concat (map quote_byte bs) @ r"
    by (auto split: option.splits)
  note ih = Cons.IH [OF r]
  have lt: "list_all (\<lambda>b. b < 256) bs" using bs by (rule utf8_encode_bytes)
  have "unquote_to_bytes (plus_to_space e) = bs @ unquote_to_bytes (plus_to_space r)"
    unfolding e using lt by (rule quote_bytes_roundtrip)
  then have 1: "utf8_decode (unquote_to_bytes (plus_to_space e)) = c # cs"
    using utf8_roundtrip [OF bs] ih by simp
  have "set (concat (map quote_byte bs)) \<subseteq> set (always_safe @ ''+%'')"
    using lt quote_byte_chars by (fastforce simp: list_all_iff)
  then have 2: "set e \<subseteq> set (always_safe @ ''+%'')"
    using ih unfolding e by auto
  have "concat (map quote_byte bs) \<noteq> []"
    using utf8_encode_nonempty [OF bs] quote_byte_nonempty by (cases bs) auto
  then have 3: "e \<noteq> []" unfolding e by simp
  from 1 2 3 show ?case by simp
qed

lemma unquote_to_bytes_no_pct:
  "CHR ''%'' \<notin> set s \<Longrightarrow> unquote_to_bytes s = map of_char s"
proof (induction s)
  case Nil
  then show ?case by simp
next
  case (Cons a s)
  then have "a \<noteq> CHR ''%''" and "CHR ''%'' \<notin> set s" by auto
  then show ?case using Cons.IH by (simp add: unquote_to_bytes_plain)
qed

lemma utf8_decode_ascii:
  "list_all (\<lambda>b. b < 128) bs \<Longrightarrow> utf8_decode bs = bs"
  by (induction bs) simp_all

lemma unquote_ascii:
  assumes "list_all is_ascii s"
  shows "unquote s = utf8_decode (unquote_to_bytes s)"
proof (cases "CHR ''%'' \<in> set s")
  case False
  have "list_all (\<lambda>b. b < 128) (map of_char s :: nat list)"
    using assms by (simp add: list_all_iff is_ascii_def)
  then show ?thesis
    using False by (simp add: unquote_def unquote_to_bytes_no_pct utf8_decode_ascii)
next
  case True
  then obtain c cs where s: "s = c # cs" by (cases s) auto
  have t: "takeWhile is_ascii s = s" "dropWhile is_ascii s = []"
    using assms by (simp_all add: list_all_iff)
  have "is_ascii c" using assms s by simp
  then have "unquote_runs (c # cs) = utf8_decode (unquote_to_bytes (takeWhile is_ascii (c # cs))) @
           unquote_runs (dropWhile is_ascii (c # cs))"
    by (simp del: takeWhile.simps dropWhile.simps)
  then show ?thesis using True t unfolding s by (simp add: unquote_def)
qed

lemma quote_plus_roundtrip:
  assumes "quote_plus v = Some e"
  shows "unquote (plus_to_space e) = v"
proof -
  note q = quote_plus_bytes [OF assms]
  have "list_all is_ascii e"
    using q quoted_chars_table by (fastforce simp: list_all_iff)
  then have "list_all is_ascii (plus_to_space e)"
    by (auto simp: list_all_iff plus_to_space_def is_ascii_def)
  then show ?thesis using q by (simp add: unquote_ascii)
qed

lemma quote_plus_chars:
  assumes "quote_plus v = Some e"
  shows "list_all (\<lambda>c. is_ascii c \<and> \<not> is_pyspace c \<and> c \<notin> set ''&=#;?/'') e"
  using quote_plus_bytes [OF assms] quoted_chars_table by (fastforce simp: list_all_iff)

lemma quote_plus_nonempty:
  "quote_plus v = Some e \<Longrightarrow> v \<noteq> [] \<Longrightarrow> e \<noteq> []"
  using quote_plus_bytes by blast

lemma utf8_decode_nonempty: "bs \<noteq> [] \<Longrightarrow> utf8_decode bs \<noteq> []"
proof (cases bs)
  case Nil
  then show "bs \<noteq> [] \<Longrightarrow> ?thesis" by simp
next
  case (Cons b r)
  show ?thesis unfolding Cons
    by (subst utf8_decode.simps(2)) (simp del: utf8_decode.simps split: list.split)
qed

lemma unquote_to_bytes_nonempty: "s \<noteq> [] \<Longrightarrow> unquote_to_bytes s \<noteq> []"
  by (cases s rule: unquote_to_bytes.cases) auto

lemma unquote_nonempty:
  assumes "s \<noteq> []"
  shows "unquote s \<noteq> []"
proof (cases "CHR ''%'' \<in> set s")
  case False
  with assms show ?thesis by (simp add: unquote_def)
next
  case True
  from assms obtain c cs where s: "s = c # cs" by (cases s) auto
  show ?thesis
  proof (cases "is_ascii c")
    case a: True
    then have "takeWhile is_ascii (c # cs) \<noteq> []" by simp
    then have "utf8_decode (unquote_to_bytes (takeWhile is_ascii (c # cs))) \<noteq> []"
      by (intro utf8_decode_nonempty unquote_to_bytes_nonempty)
    moreover have "unquote_runs (c # cs) = utf8_decode (unquote_to_bytes (takeWhile is_ascii (c # cs))) @
           unquote_runs (dropWhile is_ascii (c # cs))"
      using a by (simp del: takeWhile.simps dropWhile.simps)
    ultimately show ?thesis using True unfolding s by (simp add: unquote_def)
  next
    case False
    then show ?thesis using True unfolding s by (simp add: unquote_def)
  qed
qed

lemma dict_append_full:
  "full_dict d \<Longrightarrow> v \<noteq> [] \<Longrightarrow> full_dict (dict_append d k v)"
  by (induction d k v rule: dict_append.induct) (auto simp: full_dict_def)

lemma fold_dict_full:
  "full_dict d \<Longrightarrow> list_all (\<lambda>(k, v). v \<noteq> []) ps \<Longrightarrow>
   full_dict (fold (\<lambda>(name, val) d. dict_append d name val) ps d)"
  by (induction ps arbitrary: d) (auto simp: dict_append_full)

lemma parse_field_full: "list_all (\<lambda>(k, v). v \<noteq> []) (parse_field f)"
  by (auto simp: parse_field_def unquote_nonempty plus_to_space_def split: option.splits)

lemma parse_qsl_full: "list_all (\<lambda>(k, v). v \<noteq> []) (parse_qsl q)"
  unfolding parse_qsl_def list_all_iff
  using parse_field_full by (auto simp: list_all_iff)

lemma parse_qs_full: "full_dict (parse_qs q)"
  unfolding parse_qs_def by (intro fold_dict_full parse_qsl_full) (simp add: full_dict_def)

lemma full_dict_filter: "full_dict d \<Longrightarrow> full_dict (filter P d)"
  by (auto simp: full_dict_def list_all_iff)

lemma dict_append_new:
  "k \<notin> set (map fst d) \<Longrightarrow> dict_append d k v = d @ [(k, [v])]"
  by (induction d k v rule: dict_append.induct) auto

lemma dict_append_last:
  "k \<notin> set (map fst d) \<Longrightarrow> dict_append (d @ [(k, ws)]) k v = d @ [(k, ws @ [v])]"
  by (induction d k v rule: dict_append.induct) auto

lemma fold_values:
  "k \<notin> set (map fst acc) \<Longrightarrow>
   fold (\<lambda>(name, val) d. dict_append d name val) (map (\<lambda>v. (k, v)) vs) (acc @ [(k, ws)]) =
     acc @ [(k, ws @ vs)]"
  by (induction vs arbitrary: ws) (simp_all add: dict_append_last)

lemma fold_items:
  "distinct (map fst d) \<Longrightarrow> set (map fst d) \<inter> set (map fst acc) = {} \<Longrightarrow> full_dict d \<Longrightarrow>
   fold (\<lambda>(name, val) d. dict_append d name val) (items_of d) acc = acc @ d"
proof (induction d arbitrary: acc)
  case Nil
  then show ?case by (simp add: items_of_def)
next
  case (Cons kv d)
  obtain k vs where kv: "kv = (k, vs)" by (cases kv)
  from Cons.prems(3) obtain v vs' where vs: "vs = v # vs'"
    unfolding kv by (cases vs) (auto simp: full_dict_def)
  have k: "k \<notin> set (map fst acc)" using Cons.prems(2) unfolding kv by auto
  have 1: "fold (\<lambda>(name, val) d. dict_append d name val) (map (\<lambda>v. (k, v)) vs) acc = acc @ [(k, vs)]"
    unfolding vs using fold_values [OF k, of vs' "[v]"] k by (simp add: dict_append_new)
  have 2: "fold (\<lambda>(name, val) d. dict_append d name val) (items_of d) (acc @ [(k, vs)]) = (acc @ [(k, vs)]) @ d"
    using Cons.prems unfolding kv by (intro Cons.IH) (auto simp: full_dict_def)
  have "items_of (kv # d) = map (\<lambda>v. (k, v)) vs @ items_of d"
    by (simp add: items_of_def kv)
  then show ?case using 1 2 by (simp add: kv)
qed

lemma split_on_nonempty: "split_on c s \<noteq> []"
  by (induction s) (auto split: list.split)

lemma split_on_none: "c \<notin> set x \<Longrightarrow> split_on c x = [x]"
  by (induction x) auto

lemma split_on_append: "c \<notin> set x \<Longrightarrow> split_on c (x @ c # rest) = x # split_on c rest"
proof (induction x)
  case Nil
  then show ?case using split_on_nonempty [of c rest] by (cases "split_on c rest") auto
next
  case (Cons a x)
  then show ?case by auto
qed

lemma split_join:
  "fs \<noteq> [] \<Longrightarrow> list_all (\<lambda>f. CHR ''&'' \<notin> set f) fs \<Longrightarrow>
   split_on CHR ''&'' (join_with ''&'' fs) = fs"
proof (induction "''&''" fs rule: join_with.induct)
  case 1
  then show ?case by simp
next
  case (2 x)
  then show ?case by (simp add: split_on_none)
next
  case (3 x y rest)
  then show ?case
    using split_on_append [of "CHR ''&''" x "join_with ''&'' (y # rest)"] by simp
qed

lemma join_chars:
  "set (join_with sep fs) \<subseteq> set sep \<union> \<Union> (set ` set fs)"
  by (induction sep fs rule: join_with.induct) auto

lemma parse_field_encoded:
  assumes "quote_plus k = Some qk" "quote_plus v = Some e" "v \<noteq> []"
  shows "parse_field (qk @ ''='' @ e) = [(k, v)]"
proof -
  have "CHR ''='' \<notin> set qk"
    using quote_plus_chars [OF assms(1)] by (auto simp: list_all_iff)
  then have "split_first CHR ''='' (qk @ CHR ''='' # e) = Some (qk, e)"
    by (rule split_first_at)
  moreover have "e \<noteq> []" using assms(2,3) by (rule quote_plus_nonempty)
  ultimately show ?thesis
    using quote_plus_roundtrip [OF assms(1)] quote_plus_roundtrip [OF assms(2)]
    by (simp add: parse_field_def)
qed

lemma field_chars:
  assumes "quote_plus k = Some qk" "quote_plus v = Some e"
  shows "list_all (\<lambda>c. \<not> is_pyspace c \<and> c \<notin> set ''&#'') (qk @ ''='' @ e)"
  using quote_plus_chars [OF assms(1)] quote_plus_chars [OF assms(2)]
  by (auto simp: list_all_iff is_pyspace_def)

lemma encode_values_parse:
  assumes "quote_plus k = Some qk"
  shows "encode_values qk vs = Some l \<Longrightarrow> list_all (\<lambda>v. v \<noteq> []) vs \<Longrightarrow>
         concat (map parse_field l) = map (\<lambda>v. (k, v)) vs \<and>
         list_all (list_all (\<lambda>c. \<not> is_pyspace c \<and> c \<notin> set ''&#'')) l \<and>
         (vs \<noteq> [] \<longrightarrow> l \<noteq> [])"
proof (induction vs arbitrary: l)
  case Nil
  then show ?case by simp
next
  case (Cons v vs)
  from Cons.prems(1) obtain e l' where e: "quote_plus v = Some e"
    and l': "encode_values qk vs = Some l'" and l: "l = (qk @ ''='' @ e) # l'"
    by (auto split: option.splits)
  from Cons.prems(2) have v: "v \<noteq> []" and vs: "list_all (\<lambda>v. v \<noteq> []) vs" by simp_all
  note ih = Cons.IH [OF l' vs]
  show ?case
    unfolding l using ih parse_field_encoded [OF assms e v] field_chars [OF assms e]
    by (simp del: append.simps)
qed

lemma encode_items_parse:
  "encode_items d = Some l \<Longrightarrow> full_dict d \<Longrightarrow>
   concat (map parse_field l) = items_of d \<and>
   list_all (list_all (\<lambda>c. \<not> is_pyspace c \<and> c \<notin> set ''&#'')) l \<and>
   (d \<noteq> [] \<longrightarrow> l \<noteq> [])"
proof (induction d arbitrary: l)
  case Nil
  then show ?case by (simp add: items_of_def)
next
  case (Cons kv d)
  obtain k vs where kv: "kv = (k, vs)" by (cases kv)
  from Cons.prems(1) obtain qk l1 l2 where qk: "quote_plus k = Some qk"
    and l1: "encode_values qk vs = Some l1" and l2: "encode_items d = Some l2" and l: "l = l1 @ l2"
    unfolding kv by (auto split: option.splits)
  from Cons.prems(2) have vs: "vs \<noteq> []" "list_all (\<lambda>v. v \<noteq> []) vs" and d: "full_dict d"
    unfolding kv by (simp_all add: full_dict_def)
  note a = encode_values_parse [OF qk l1 vs(2)]
  note b = Cons.IH [OF l2 d]
  have "items_of (kv # d) = map (\<lambda>v. (k, v)) vs @ items_of d"
    by (simp add: items_of_def kv)
  then show ?case unfolding l using a b vs(1) by simp
qed

lemma urlencode_parse:
  assumes "urlencode d = Some nq" "full_dict d" "distinct (map fst d)"
  shows "parse_qs nq = d" "no_space nq" "CHR ''#'' \<notin> set nq"
proof -
  from assms(1) obtain l where l: "encode_items d = Some l" and nq: "nq = join_with ''&'' l"
    by (auto simp: urlencode_def)
  note p = encode_items_parse [OF l assms(2)]
  have chars: "list_all (list_all (\<lambda>c. \<not> is_pyspace c \<and> c \<notin> set ''&#'')) l" using p by simp
  have "set nq \<subseteq> set ''&'' \<union> \<Union> (set ` set l)"
    unfolding nq by (rule join_chars)
  then have "\<forall>c\<in>set nq. \<not> is_pyspace c \<and> c \<noteq> CHR ''#''"
    using chars by (fastforce simp: list_all_iff is_pyspace_def)
  then show "no_space nq" "CHR ''#'' \<notin> set nq"
    by (auto simp: no_space_def list_all_iff)
  show "parse_qs nq = d"
  proof (cases "d = []")
    case True
    with l have "l = []" by simp
    then show ?thesis using True by (simp add: nq parse_qs_Nil)
  next
    case False
    then have ne: "l \<noteq> []" using p by simp
    have "list_all (\<lambda>f. CHR ''&'' \<notin> set f) l"
      using chars by (auto simp: list_all_iff)
    with ne have "split_on CHR ''&'' nq = l" unfolding nq by (rule split_join)
    then have "parse_qsl nq = items_of d" using p by (simp add: parse_qsl_def)
    then show ?thesis
      using fold_items [OF assms(3) _ assms(2), of "[]"] by (simp add: parse_qs_def)
  qed
qed

lemma distinct_filter_keys: "distinct (map fst d) \<Longrightarrow> distinct (map fst (filter P d))"
  by (induction d) auto

lemma whitelisted_props:
  "full_dict (whitelisted wl q)" "distinct (map fst (whitelisted wl q))"
  unfolding whitelisted_def
  by (intro full_dict_filter parse_qs_full, intro distinct_filter_keys parse_qs_distinct)

lemma whitelisted_fixpoint:
  assumes "urlencode (whitelisted wl q) = Some nq"
  shows "whitelisted wl nq = whitelisted wl q" "no_space nq" "CHR ''#'' \<notin> set nq"
proof -
  note u = urlencode_parse [OF assms whitelisted_props]
  show "no_space nq" "CHR ''#'' \<notin> set nq" using u by simp_all
  have "whitelisted wl nq = filter (\<lambda>(k, v). k \<in> set wl) (whitelisted wl q)"
    using u(1) by (simp add: whitelisted_def)
  then show "whitelisted wl nq = whitelisted wl q"
    by (simp add: whitelisted_def)
qed

lemma takeWhile_absent:
  "c \<notin> set s \<Longrightarrow> takeWhile (\<lambda>x. x \<noteq> c) s = s \<and> dropWhile (\<lambda>x. x \<noteq> c) s = []"
  by (induction s) auto

lemma split_pair:
  "(case split_first c s of Some (a, b) \<Rightarrow> (a, b) | None \<Rightarrow> (s, [])) =
     (takeWhile (\<lambda>x. x \<noteq> c) s, tl (dropWhile (\<lambda>x. x \<noteq> c) s))"
proof (cases "c \<in> set s")
  case True
  then show ?thesis by (simp add: split_first_def)
next
  case False
  have a: "takeWhile (\<lambda>x. x \<noteq> c) s = s" "dropWhile (\<lambda>x. x \<noteq> c) s = []"
    using takeWhile_absent [OF False] by blast+
  show ?thesis unfolding split_first_def a using False by simp
qed

lemma list_all_takeWhile: "list_all P (takeWhile P xs)"
  by (induction xs) auto

lemma set_takeWhile_subset: "set (takeWhile P xs) \<subseteq> set xs"
  by (auto dest: set_takeWhileD)

lemma set_dropWhile_subset: "set (dropWhile P xs) \<subseteq> set xs"
  by (auto dest: set_dropWhileD)

lemma takeWhile_without: "c \<notin> set (takeWhile (\<lambda>x. x \<noteq> c) xs)"
  by (auto dest: set_takeWhileD)

lemma split_scheme_parts:
  assumes "split_scheme x = (s, r)"
  shows "s = [] \<or> (valid_scheme s \<and> lower s = s)" "set r \<subseteq> set x"
proof -
  let ?pre = "takeWhile (\<lambda>c. c \<noteq> CHR '':'') x"
  let ?c = "CHR '':'' \<in> set x \<and> ?pre \<noteq> [] \<and> is_ascii_alpha (hd x) \<and>
            list_all (\<lambda>c. c \<in> set scheme_chars) ?pre"
  show "set r \<subseteq> set x"
    using assms set_drop_subset [of "Suc (length ?pre)" x]
    by (auto simp: split_scheme_def Let_def split: if_splits)
  show "s = [] \<or> (valid_scheme s \<and> lower s = s)"
  proof (cases ?c)
    case False
    with assms show ?thesis by (auto simp: split_scheme_def Let_def)
  next
    case True
    with assms have s: "s = lower ?pre" by (auto simp: split_scheme_def Let_def)
    from True have ne: "?pre \<noteq> []" and al: "is_ascii_alpha (hd x)"
      and sc: "list_all (\<lambda>c. c \<in> set scheme_chars) ?pre" by simp_all
    from ne have "hd ?pre = hd x" by (cases x) (auto split: if_splits)
    with al ne have 1: "is_ascii_alpha (hd (lower ?pre))"
      by (simp add: lower_def hd_map lower_alpha)
    have 2: "list_all (\<lambda>c. c \<in> set scheme_chars) (lower ?pre)"
      using sc by (auto simp: lower_def list_all_iff lower_scheme_char)
    have 3: "lower (lower ?pre) = lower ?pre"
      using sc by (auto simp: lower_def list_all_iff lower_lower_scheme_char)
    from ne 1 2 3 show ?thesis unfolding s by (simp add: valid_scheme_def lower_def)
  qed
qed

lemma urlsplit_unfold:
  assumes ns: "no_space u"
    and ss: "split_scheme (dropWhile (\<lambda>c. (of_char c :: nat) \<le> 32) u) = (s0, url3)"
  shows "urlsplit ip_ok u =
    (if take 2 url3 = ''//''
     then (if \<not> netloc_ok ip_ok (takeWhile (\<lambda>c. c \<notin> set ''/?#'') (drop 2 url3)) then None
           else Some (s0, takeWhile (\<lambda>c. c \<notin> set ''/?#'') (drop 2 url3),
                  takeWhile (\<lambda>x. x \<noteq> CHR ''?'') (takeWhile (\<lambda>x. x \<noteq> CHR ''#'')
                     (dropWhile (\<lambda>c. c \<notin> set ''/?#'') (drop 2 url3))),
                  tl (dropWhile (\<lambda>x. x \<noteq> CHR ''?'') (takeWhile (\<lambda>x. x \<noteq> CHR ''#'')
                     (dropWhile (\<lambda>c. c \<notin> set ''/?#'') (drop 2 url3)))),
                  tl (dropWhile (\<lambda>x. x \<noteq> CHR ''#'') (dropWhile (\<lambda>c. c \<notin> set ''/?#'') (drop 2 url3)))))
     else Some (s0, [], takeWhile (\<lambda>x. x \<noteq> CHR ''?'') (takeWhile (\<lambda>x. x \<noteq> CHR ''#'') url3),
                tl (dropWhile (\<lambda>x. x \<noteq> CHR ''?'') (takeWhile (\<lambda>x. x \<noteq> CHR ''#'') url3)),
                tl (dropWhile (\<lambda>x. x \<noteq> CHR ''#'') url3)))"
proof -
  let ?url1 = "dropWhile (\<lambda>c. (of_char c :: nat) \<le> 32) u"
  have "set ?url1 \<subseteq> set u" by (rule set_dropWhile_subset)
  then have "no_space ?url1" using ns by (auto simp: no_space_def list_all_iff)
  then have u2: "filter (\<lambda>c. c \<notin> set [CHR 0x09, CHR 0x0D, CHR 0x0A]) ?url1 = ?url1"
    by (rule no_space_filter)
  show ?thesis
  proof (cases "take 2 url3 = ''//''")
    case True
    show ?thesis
      unfolding urlsplit_def Let_def u2 ss split_pair splitnetloc_def
      by (simp only: True if_True prod.case simp_thms)
  next
    case False
    show ?thesis
      unfolding urlsplit_def Let_def u2 ss split_pair splitnetloc_def
      by (simp only: False if_False prod.case simp_thms)
  qed
qed

lemma urlsplit_parts:
  assumes sp: "urlsplit ip_ok u = Some (sch, nl, p, q, fr)" and ns: "no_space u" and nl: "nl \<noteq> []"
  shows "sch = [] \<or> (valid_scheme sch \<and> lower sch = sch)"
    and "list_all (\<lambda>c. c \<notin> set ''/?#'') nl" and "netloc_ok ip_ok nl"
    and "p = [] \<or> hd p = CHR ''/''" and "CHR ''?'' \<notin> set p" and "CHR ''#'' \<notin> set p"
    and "set nl \<subseteq> set u" and "set p \<subseteq> set u"
proof -
  define url1 where "url1 = dropWhile (\<lambda>c. (of_char c :: nat) \<le> 32) u"
  have s1: "set url1 \<subseteq> set u" unfolding url1_def by (rule set_dropWhile_subset)
  obtain s0 url3 where ss: "split_scheme url1 = (s0, url3)" by (cases "split_scheme url1")
  note un = urlsplit_unfold [OF ns ss [unfolded url1_def], of ip_ok]
  have t2: "take 2 url3 = ''//''"
  proof (rule ccontr)
    assume "take 2 url3 \<noteq> ''//''"
    then have "nl = []" using sp unfolding un by (simp only: if_False option.inject prod.inject)
    with nl show False by simp
  qed
  define r where "r = drop 2 url3"
  define url4 where "url4 = dropWhile (\<lambda>c. c \<notin> set ''/?#'') r"
  have ok': "netloc_ok ip_ok (takeWhile (\<lambda>c. c \<notin> set ''/?#'') r)"
  proof (rule ccontr)
    assume "\<not> netloc_ok ip_ok (takeWhile (\<lambda>c. c \<notin> set ''/?#'') r)"
    then show False using sp unfolding un r_def by (simp only: t2 if_True simp_thms option.distinct)
  qed
  have "Some (sch, nl, p, q, fr) =
          Some (s0, takeWhile (\<lambda>c. c \<notin> set ''/?#'') r,
                takeWhile (\<lambda>x. x \<noteq> CHR ''?'') (takeWhile (\<lambda>x. x \<noteq> CHR ''#'') url4),
                tl (dropWhile (\<lambda>x. x \<noteq> CHR ''?'') (takeWhile (\<lambda>x. x \<noteq> CHR ''#'') url4)),
                tl (dropWhile (\<lambda>x. x \<noteq> CHR ''#'') url4))"
    using sp ok' unfolding un r_def url4_def by (simp only: t2 if_True simp_thms if_False)
  then have eq: "sch = s0" "nl = takeWhile (\<lambda>c. c \<notin> set ''/?#'') r"
    "p = takeWhile (\<lambda>x. x \<noteq> CHR ''?'') (takeWhile (\<lambda>x. x \<noteq> CHR ''#'') url4)"
    by (simp_all only: option.inject prod.inject)
  show "netloc_ok ip_ok nl" unfolding eq(2) by (rule ok')
  show "sch = [] \<or> (valid_scheme sch \<and> lower sch = sch)"
    unfolding eq(1) using ss by (rule split_scheme_parts)
  have s3: "set url3 \<subseteq> set url1" using ss by (rule split_scheme_parts)
  have sr: "set r \<subseteq> set u"
    unfolding r_def by (rule subset_trans [OF set_drop_subset subset_trans [OF s3 s1]])
  show "list_all (\<lambda>c. c \<notin> set ''/?#'') nl"
    unfolding eq(2) by (rule list_all_takeWhile)
  show "set nl \<subseteq> set u"
    unfolding eq(2) by (rule subset_trans [OF set_takeWhile_subset sr])
  have s4: "set url4 \<subseteq> set u"
    unfolding url4_def by (rule subset_trans [OF set_dropWhile_subset sr])
  have s5: "set p \<subseteq> set (takeWhile (\<lambda>x. x \<noteq> CHR ''#'') url4)"
    unfolding eq(3) by (rule set_takeWhile_subset)
  have s6: "set (takeWhile (\<lambda>x. x \<noteq> CHR ''#'') url4) \<subseteq> set url4"
    by (rule set_takeWhile_subset)
  show "set p \<subseteq> set u" by (rule subset_trans [OF s5 subset_trans [OF s6 s4]])
  show "CHR ''?'' \<notin> set p"
    unfolding eq(3) by (rule takeWhile_without)
  show "CHR ''#'' \<notin> set p"
    using s5 takeWhile_without [of "CHR ''#''" url4] by (rule contra_subsetD)
  show "p = [] \<or> hd p = CHR ''/''"
  proof (cases url4)
    case Nil
    then show ?thesis by (simp add: eq(3))
  next
    case (Cons c cs)
    then have "dropWhile (\<lambda>c. c \<notin> set ''/?#'') r \<noteq> []" unfolding url4_def by simp
    then have "\<not> (hd (dropWhile (\<lambda>c. c \<notin> set ''/?#'') r) \<notin> set ''/?#'')"
      by (rule hd_dropWhile)
    then have "c \<in> set ''/?#''" using Cons unfolding url4_def by simp
    then show ?thesis unfolding eq(3) Cons by auto
  qed
qed

lemma whitelist_nonempty: "whitelist h = Some wl \<Longrightarrow> h \<noteq> []"
  by (auto simp: whitelist_def split: if_splits)

lemma rstrip_char_idem: "rstrip_char c (rstrip_char c s) = rstrip_char c s"
  by (simp add: rstrip_char_def)

lemma normalize_url_parsed:
  assumes ns: "no_space u" and ne: "u \<noteq> []"
    and parsed: "urlparse ip_ok u =
                   Some \<lparr>scheme = sch, netloc = h, path = p, params = ps, query = q, fragment = fr\<rparr>"
    and wl: "whitelist h = Some wl" and enc: "urlencode (whitelisted wl q) = Some nq"
  shows "normalize_url ip_ok u = urlunparse (sch, h, rstrip_char CHR ''/'' p, ps, nq, [])"
proof -
  have strip: "strip u = u" using ns by (rule no_space_strip)
  have img: "(case map_of (parse_qs q) (ustr_of ''img_index'') of
                None \<Rightarrow> [] | Some v \<Rightarrow> [(ustr_of ''img_index'', v)]) =
             whitelisted [ustr_of ''img_index''] q" for q
    unfolding whitelisted_def by (rule map_of_as_filter) (rule parse_qs_distinct)
  consider (ig) "contains ''instagram.com'' h \<or> contains ''facebook.com'' h" "wl = [ustr_of ''img_index'']"
    | (tt) "\<not> (contains ''instagram.com'' h \<or> contains ''facebook.com'' h)" "contains ''tiktok.com'' h" "wl = []"
    | (yt) "\<not> (contains ''instagram.com'' h \<or> contains ''facebook.com'' h)" "\<not> contains ''tiktok.com'' h"
           "contains ''youtube.com'' h \<or> contains ''youtu.be'' h" "wl = [ustr_of ''v'', ustr_of ''t'']"
    | (sc) "\<not> (contains ''instagram.com'' h \<or> contains ''facebook.com'' h)" "\<not> contains ''tiktok.com'' h"
           "\<not> (contains ''youtube.com'' h \<or> contains ''youtu.be'' h)" "contains ''soundcloud.com'' h" "wl = []"
    using wl by (auto simp: whitelist_def split: if_splits)
  then show ?thesis
  proof cases
    case ig
    with enc have "urlencode (whitelisted [ustr_of ''img_index''] q) = Some nq" by simp
    then show ?thesis
      unfolding normalize_url_def strip parsed Let_def
      using ne ig(1) by (simp add: img del: contains.simps)
  next
    case tt
    with enc have "nq = []" by (simp add: whitelisted_Nil urlencode_Nil)
    then show ?thesis
      unfolding normalize_url_def strip parsed Let_def
      using ne tt by (simp del: contains.simps)
  next
    case yt
    with enc have "urlencode (whitelisted [ustr_of ''v'', ustr_of ''t''] q) = Some nq" by simp
    then show ?thesis
      unfolding normalize_url_def strip parsed Let_def
      using ne yt(1,2,3) by (simp add: whitelisted_def del: contains.simps)
  next
    case sc
    with enc have "nq = []" by (simp add: whitelisted_Nil urlencode_Nil)
    then show ?thesis
      unfolding normalize_url_def strip parsed Let_def
      using ne sc by (simp del: contains.simps)
  qed
qed

lemma normalize_url_no_platform:
  assumes ns: "no_space u"
    and "urlparse ip_ok u = Some parsed" and "whitelist (netloc parsed) = None"
  shows "normalize_url ip_ok u = u"
proof -
  have strip: "strip u = u" using ns by (rule no_space_strip)
  have rs: "rstrip u = u" using ns by (rule no_space_rstrip)
  have c: "\<not> (contains ''instagram.com'' (netloc parsed) \<or> contains ''facebook.com'' (netloc parsed))"
    "\<not> contains ''tiktok.com'' (netloc parsed)"
    "\<not> (contains ''youtube.com'' (netloc parsed) \<or> contains ''youtu.be'' (netloc parsed))"
    "\<not> contains ''soundcloud.com'' (netloc parsed)"
    using assms(3) by (auto simp: whitelist_def split: if_splits)
  show ?thesis
    unfolding normalize_url_def strip assms(2) Let_def
    using c by (simp add: rs del: contains.simps)
qed

lemma normalize_url_unparsed:
  assumes ns: "no_space u" and "urlparse ip_ok u = None"
  shows "normalize_url ip_ok u = u"
proof -
  have strip: "strip u = u" using ns by (rule no_space_strip)
  have rs: "rstrip u = u" using ns by (rule no_space_rstrip)
  show ?thesis
    unfolding normalize_url_def strip assms(2) Let_def by (simp add: rs)
qed

lemma urlunparse_built:
  assumes "nl \<noteq> []" "p = [] \<or> hd p = CHR ''/''"
  shows "urlunparse (sch, nl, p, [], nq, []) =
           (if sch = [] then ''//'' else sch @ ''://'') @ nl @ p @ query_suffix nq"
proof -
  have "\<not> (p \<noteq> [] \<and> take 1 p \<noteq> ''/'')"
    using assms(2) by (cases p) auto
  then show ?thesis
    using assms(1) by (simp add: urlunparse_def urlunsplit_def query_suffix_def Let_def)
qed

lemma no_space_subset: "no_space u \<Longrightarrow> set s \<subseteq> set u \<Longrightarrow> no_space s"
  by (auto simp: no_space_def list_all_iff)

lemma no_space_scheme: "valid_scheme s \<Longrightarrow> no_space s"
  by (auto simp: valid_scheme_def no_space_def list_all_iff dest: scheme_char_no_space)

lemma query_suffix_props:
  assumes "no_space nq" "CHR ''#'' \<notin> set nq"
  shows "query_suffix nq = [] \<or> hd (query_suffix nq) = CHR ''?''"
    and "CHR ''#'' \<notin> set (query_suffix nq)" and "no_space (query_suffix nq)"
    and "drop 1 (query_suffix nq) = nq"
  using assms by (auto simp: query_suffix_def no_space_def is_pyspace_def)

lemma urlparse_rebuilt:
  assumes sch: "sch = [] \<or> (valid_scheme sch \<and> lower sch = sch)"
    and nl: "nl \<noteq> []" "list_all (\<lambda>c. c \<notin> set ''/?#'') nl" "netloc_ok ip_ok nl" "no_space nl"
    and p: "p = [] \<or> hd p = CHR ''/''" "CHR ''?'' \<notin> set p" "CHR ''#'' \<notin> set p"
           "CHR '';'' \<notin> set p" "no_space p"
    and nq: "no_space nq" "CHR ''#'' \<notin> set nq"
  shows "urlparse ip_ok (urlunparse (sch, nl, p, [], nq, [])) =
           Some \<lparr>scheme = sch, netloc = nl, path = p, params = [], query = nq, fragment = []\<rparr>"
    and "no_space (urlunparse (sch, nl, p, [], nq, []))"
    and "urlunparse (sch, nl, p, [], nq, []) \<noteq> []"
proof -
  note t = query_suffix_props [OF nq]
  have ns: "no_space (nl @ p @ query_suffix nq)"
    using nl(4) p(5) t(3) by (simp add: no_space_def)
  note un = urlunparse_built [OF nl(1) p(1), of sch nq]
  show "urlunparse (sch, nl, p, [], nq, []) \<noteq> []"
    unfolding un using nl(1) by simp
  show "no_space (urlunparse (sch, nl, p, [], nq, []))"
  proof (cases "sch = []")
    case True
    then show ?thesis unfolding un using ns by (simp add: no_space_def is_pyspace_def)
  next
    case False
    with sch have "no_space sch" by (simp add: no_space_scheme)
    then show ?thesis unfolding un using ns False by (simp add: no_space_def is_pyspace_def)
  qed
  have "urlsplit ip_ok (urlunparse (sch, nl, p, [], nq, [])) = Some (sch, nl, p, nq, [])"
  proof (cases "sch = []")
    case True
    have "urlsplit ip_ok (''//'' @ nl @ p @ query_suffix nq) = Some ([], nl, p, drop 1 (query_suffix nq), [])"
      using nl(2,3) p(1,2,3) t(1,2) ns by (rule urlsplit_build_noscheme)
    then show ?thesis unfolding un using True t(4) by simp
  next
    case False
    with sch have v: "valid_scheme sch" and l: "lower sch = sch" by simp_all
    have "urlsplit ip_ok (sch @ ''://'' @ nl @ p @ query_suffix nq) =
            Some (lower sch, nl, p, drop 1 (query_suffix nq), [])"
      using v nl(2,3) p(1,2,3) t(1,2) ns by (rule urlsplit_build_scheme)
    then show ?thesis unfolding un using False t(4) l by simp
  qed
  then show "urlparse ip_ok (urlunparse (sch, nl, p, [], nq, [])) =
           Some \<lparr>scheme = sch, netloc = nl, path = p, params = [], query = nq, fragment = []\<rparr>"
    using p(4) by (simp add: urlparse_def)
qed

lemma urlparse_split:
  assumes "urlparse ip_ok u = Some parsed" "no_space u" "CHR '';'' \<notin> set u" "netloc parsed \<noteq> []"
  shows "urlsplit ip_ok u = Some (scheme parsed, netloc parsed, path parsed, query parsed, fragment parsed)"
    and "params parsed = []"
proof -
  from assms(1) obtain sch nl p0 q fr where sp: "urlsplit ip_ok u = Some (sch, nl, p0, q, fr)"
    by (auto simp: urlparse_def split: option.splits)
  have nl: "nl = netloc parsed"
    using assms(1) unfolding urlparse_def sp by (auto simp: Let_def split: prod.splits)
  then have "nl \<noteq> []" using assms(4) by simp
  with sp assms(2) have "set p0 \<subseteq> set u" by (rule urlsplit_parts)
  then have "CHR '';'' \<notin> set p0" using assms(3) by blast
  then have "parsed = \<lparr>scheme = sch, netloc = nl, path = p0, params = [], query = q, fragment = fr\<rparr>"
    using assms(1) unfolding urlparse_def sp by simp
  then show "urlsplit ip_ok u = Some (scheme parsed, netloc parsed, path parsed, query parsed, fragment parsed)"
    and "params parsed = []"
    using sp by simp_all
qed

text \<open>
  Claim C2 as stated fails. Stripping the trailing slash of the path \<open>/a/;/\<close> leaves
  \<open>/a/;\<close>, whose last segment the parser then reads as an empty parameter part: the
  second application gives \<open>/a\<close>. In the same way a space before the trailing slash
  becomes the end of the result and is stripped by the second application.
\<close>

theorem normalize_url_idempotent_counterexample:
  "normalize_url no_ip ''https://tiktok.com/a/;/'' = ''https://tiktok.com/a/;'' \<and>
   normalize_url no_ip (normalize_url no_ip ''https://tiktok.com/a/;/'') = ''https://tiktok.com/a'' \<and>
   normalize_url no_ip (normalize_url no_ip ''https://tiktok.com/a/;/'') \<noteq>
     normalize_url no_ip ''https://tiktok.com/a/;/'' \<and>
   normalize_url no_ip ''https://tiktok.com/a /'' = ''https://tiktok.com/a '' \<and>
   normalize_url no_ip (normalize_url no_ip ''https://tiktok.com/a /'') = ''https://tiktok.com/a''"
  by code_simp

text \<open>
  Claim C2, amended. For every input without a whitespace character (those that
  \<open>str.strip\<close> removes) and without a semicolon, applying \<open>normalize_url\<close> to its own
  result changes nothing: either the input is returned as it is, or the result is built from
  a scheme in lower case, the host, the path without trailing slashes and the encoded
  whitelisted parameters, and it parses back into exactly these parts.
\<close>

theorem normalize_url_idempotent:
  assumes ns: "no_space u" and semi: "CHR '';'' \<notin> set u"
  shows "normalize_url ip_ok (normalize_url ip_ok u) = normalize_url ip_ok u"
proof (cases "urlparse ip_ok u")
  case None
  with ns have "normalize_url ip_ok u = u" by (rule normalize_url_unparsed)
  then show ?thesis by simp
next
  case (Some parsed)
  show ?thesis
  proof (cases "whitelist (netloc parsed)")
    case None
    with ns Some have "normalize_url ip_ok u = u" by (rule normalize_url_no_platform)
    then show ?thesis by simp
  next
    case wl: (Some wl)
    define sch nl p q where "sch = scheme parsed" and "nl = netloc parsed" and "p = path parsed"
      and "q = query parsed"
    have nl: "nl \<noteq> []" using wl unfolding nl_def by (rule whitelist_nonempty)
    note sp = urlparse_split [OF Some ns semi nl [unfolded nl_def], folded sch_def nl_def p_def q_def]
    have parsed: "urlparse ip_ok u =
        Some \<lparr>scheme = sch, netloc = nl, path = p, params = [], query = q, fragment = fragment parsed\<rparr>"
      unfolding Some using sp(2) by (simp add: sch_def nl_def p_def q_def)
    note parts = urlsplit_parts [OF sp(1) ns nl]
    have ne: "u \<noteq> []" using parts(7) nl by auto
    obtain nq where nq: "urlencode (whitelisted wl q) = Some nq"
      using whitelisted_encodes by blast
    define p' where "p' = rstrip_char CHR ''/'' p"
    have first: "normalize_url ip_ok u = urlunparse (sch, nl, p', [], nq, [])"
      unfolding p'_def using ns ne parsed wl [folded nl_def] nq by (rule normalize_url_parsed)
    have pu: "set p' \<subseteq> set u"
      unfolding p'_def by (rule subset_trans [OF rstrip_char_subset parts(8)])
    have pp: "set p' \<subseteq> set p" unfolding p'_def by (rule rstrip_char_subset)
    have p1: "p' = [] \<or> hd p' = CHR ''/''"
      unfolding p'_def using parts(4) by (rule rstrip_char_hd)
    have p2: "CHR ''?'' \<notin> set p'" "CHR ''#'' \<notin> set p'" using pp parts(5,6) by blast+
    have p3: "CHR '';'' \<notin> set p'" using pu semi by blast
    have p4: "no_space p'" using ns pu by (rule no_space_subset)
    have n4: "no_space nl" using ns parts(7) by (rule no_space_subset)
    note fx = whitelisted_fixpoint [OF nq]
    note re = urlparse_rebuilt [OF parts(1) nl parts(2,3) n4 p1 p2 p3 p4 fx(2,3)]
    have nq': "urlencode (whitelisted wl nq) = Some nq" using nq fx(1) by simp
    have "normalize_url ip_ok (urlunparse (sch, nl, p', [], nq, [])) =
            urlunparse (sch, nl, rstrip_char CHR ''/'' p', [], nq, [])"
      using re(2,3,1) wl [folded nl_def] nq' by (rule normalize_url_parsed)
    then show ?thesis unfolding first by (simp add: p'_def rstrip_char_idem)
  qed
qed

theorem normalize_url_idempotent_witness:
  "no_space ''https://www.youtube.com/watch/?v=a%20b&feature=share&t=1%C3%A9'' \<and>
   CHR '';'' \<notin> set ''https://www.youtube.com/watch/?v=a%20b&feature=share&t=1%C3%A9'' \<and>
   normalize_url no_ip ''https://www.youtube.com/watch/?v=a%20b&feature=share&t=1%C3%A9'' =
     ''https://www.youtube.com/watch?v=a+b&t=1%C3%A9'' \<and>
   normalize_url no_ip ''https://www.youtube.com/watch?v=a+b&t=1%C3%A9'' =
     ''https://www.youtube.com/watch?v=a+b&t=1%C3%A9''"
proof -
  have 1: "no_space ''https://www.youtube.com/watch/?v=a%20b&feature=share&t=1%C3%A9''" by code_simp
  have 2: "CHR '';'' \<notin> set ''https://www.youtube.com/watch/?v=a%20b&feature=share&t=1%C3%A9''" by simp
  have 3: "normalize_url no_ip ''https://www.youtube.com/watch/?v=a%20b&feature=share&t=1%C3%A9'' =
     ''https://www.youtube.com/watch?v=a+b&t=1%C3%A9''" by code_simp
  from normalize_url_idempotent [OF 1 2, of no_ip] 1 2 3 show ?thesis by simp
qed

end
